theory Spec2Isabelle
  imports Main "HOL-Library.Char_ord" "HOL-Library.List_Lexorder"
begin

section \<open>JavaScript strings and arrays\<close>

text \<open>
  A JavaScript string is modelled as a HOL \<open>string\<close>, one \<open>char\<close> per code unit, for the code
  units \<open>0..255\<close>. The operations below are the built-ins the source calls, with the results
  JavaScript gives: \<open>s.split(c)\<close> of the empty string is the one-element array \<open>['']\<close>,
  \<open>findIndex\<close> and \<open>indexOf\<close> answer \<open>-1\<close> when nothing is found, \<open>trim\<close> removes the white
  space and line terminators of ECMAScript that lie in the modelled range.
\<close>

definition LF :: char where
  "LF = CHR 0x0A"

definition DQ :: char where
  "DQ = CHR 0x22"

definition SQ :: char where
  "SQ = CHR 0x27"

definition isWhiteSpace :: "char \<Rightarrow> bool" where
  "isWhiteSpace c =
     (c = CHR 0x09 \<or> c = CHR 0x0A \<or> c = CHR 0x0B \<or> c = CHR 0x0C \<or> c = CHR 0x0D
      \<or> c = CHR 0x20 \<or> c = CHR 0xA0)"

definition trim :: "string \<Rightarrow> string" where
  "trim s = rev (dropWhile isWhiteSpace (rev (dropWhile isWhiteSpace s)))"

fun startsWith :: "string \<Rightarrow> string \<Rightarrow> bool" where
  "startsWith s [] = True"
| "startsWith [] (p # ps) = False"
| "startsWith (c # cs) (p # ps) = (c = p \<and> startsWith cs ps)"

fun includesStr :: "string \<Rightarrow> string \<Rightarrow> bool" where
  "includesStr [] p = (p = [])"
| "includesStr (c # cs) p = (startsWith (c # cs) p \<or> includesStr cs p)"

fun splitStr :: "char \<Rightarrow> string \<Rightarrow> string list" where
  "splitStr sep [] = [[]]"
| "splitStr sep (c # cs) =
     (if c = sep then [] # splitStr sep cs
      else (case splitStr sep cs of
              [] \<Rightarrow> [[c]]
            | l # ls \<Rightarrow> (c # l) # ls))"

fun joinStr :: "string \<Rightarrow> string list \<Rightarrow> string" where
  "joinStr sep [] = []"
| "joinStr sep [l] = l"
| "joinStr sep (l # m # ls) = l @ sep @ joinStr sep (m # ls)"

fun findIndex :: "('a \<Rightarrow> bool) \<Rightarrow> 'a list \<Rightarrow> int" where
  "findIndex P [] = - 1"
| "findIndex P (x # xs) =
     (if P x then 0
      else (let i = findIndex P xs in if i = - 1 then - 1 else i + 1))"

definition indexOf :: "'a list \<Rightarrow> 'a \<Rightarrow> int" where
  "indexOf xs x = findIndex (\<lambda>y. y = x) xs"

text \<open>\<open>xs.splice(start, 0, ...items)\<close>: a negative start counts from the end, a start beyond
  the end is the end.\<close>

definition splice :: "int \<Rightarrow> 'a list \<Rightarrow> 'a list \<Rightarrow> 'a list" where
  "splice start items xs =
     (let n = int (length xs);
          k = (if start < 0 then max (n + start) 0 else min start n)
      in take (nat k) xs @ items @ drop (nat k) xs)"

section \<open>The data model of \<open>types.ts\<close>\<close>

record EnvVarSuggestion =
  key :: string
  description :: string
  defaultValue :: "string option"
  val :: "string option"

text \<open>The field \<open>value\<close> of the source is \<open>val\<close> here; an optional field that is absent is
  \<open>None\<close>. \<open>v.value || ''\<close> is the value when it is a non-empty string and \<open>''\<close> otherwise.\<close>

definition valueOrEmpty :: "EnvVarSuggestion \<Rightarrow> string" where
  "valueOrEmpty v = (case val v of None \<Rightarrow> [] | Some s \<Rightarrow> s)"

definition falsy :: "string option \<Rightarrow> bool" where
  "falsy v = (v = None \<or> v = Some [])"

section \<open>\<open>AnalysisView\<close>: the build file\<close>

definition envLine :: "EnvVarSuggestion \<Rightarrow> string" where
  "envLine v = ''ENV '' @ key v @ ''='' @ [DQ] @ valueOrEmpty v @ [DQ]"

definition isEnvLine :: "string \<Rightarrow> bool" where
  "isEnvLine l = startsWith (trim l) ''ENV ''"

definition cleanDockerfile :: "string \<Rightarrow> EnvVarSuggestion list \<Rightarrow> string" where
  "cleanDockerfile dockerfile vars =
     (let lines0 = splitStr LF dockerfile;
          lines1 = filter (\<lambda>l. \<not> isEnvLine l) lines0;
          idxW = findIndex (\<lambda>l. includesStr l ''WORKDIR'') lines1;
          insertIdx = (if idxW = - 1 then findIndex (\<lambda>l. includesStr l ''FROM'') lines1 else idxW);
          envLines = map envLine vars
      in joinStr [LF] (splice (insertIdx + 1) envLines lines1))"

record AIAnalysisResult =
  projectName :: string
  stack :: string
  dockerfile :: string
  dockerCompose :: "string option"
  envVars :: "EnvVarSuggestion list"
  explanation :: string
  port :: int

section \<open>\<open>AnalysisView\<close>: the merge of the standard variables\<close>

definition STANDARD_LLM_VARS :: "EnvVarSuggestion list" where
  "STANDARD_LLM_VARS =
     [\<lparr>key = ''LLM_PROVIDER'',
       description = ''Set to 'openrouter' or 'gemini'' @ [SQ],
       defaultValue = None, val = Some ''openrouter''\<rparr>,
      \<lparr>key = ''OPENROUTER_API_KEY'',
       description = ''Required if LLM_PROVIDER is openrouter'',
       defaultValue = None, val = Some ''''\<rparr>,
      \<lparr>key = ''GOOGLE_API_KEY'',
       description = ''Required if LLM_PROVIDER is gemini'',
       defaultValue = None, val = Some ''''\<rparr>,
      \<lparr>key = ''BASE_URL'',
       description = ''API Endpoint (for OpenRouter)'',
       defaultValue = None, val = Some ''https://openrouter.ai/api/v1''\<rparr>,
      \<lparr>key = ''MODEL_NAME'',
       description = ''Model ID (for OpenRouter)'',
       defaultValue = None, val = Some ''meta-llama/llama-3.1-8b-instruct''\<rparr>,
      \<lparr>key = ''HOST'',
       description = ''Required for Docker networking (Auto-handled)'',
       defaultValue = None, val = Some ''0.0.0.0''\<rparr>]"

text \<open>The body of \<open>STANDARD_LLM_VARS.forEach\<close>. \<open>currentKeys\<close> is the set of the keys of the
  list before the merge; it is not updated while the standard variables are pushed.\<close>

definition mergeStdVar ::
  "string set \<Rightarrow> EnvVarSuggestion list \<Rightarrow> EnvVarSuggestion \<Rightarrow> EnvVarSuggestion list" where
  "mergeStdVar currentKeys newVars stdVar =
     (if key stdVar \<notin> currentKeys then newVars @ [stdVar]
      else (let idx = findIndex (\<lambda>v. key v = key stdVar) newVars
            in if idx \<noteq> - 1 \<and> falsy (val (newVars ! nat idx)) \<and> \<not> falsy (val stdVar)
               then newVars[nat idx := (newVars ! nat idx)\<lparr>val := val stdVar\<rparr>]
               else newVars))"

definition priority :: "string list" where
  "priority = [''HOST'', ''PORT'', ''LLM_PROVIDER'', ''OPENROUTER_API_KEY'', ''GOOGLE_API_KEY'',
               ''BASE_URL'', ''MODEL_NAME'']"

text \<open>The comparator of the sort. \<open>String.prototype.localeCompare\<close> is the collation of the
  host's locale, which the repository does not fix: it is the parameter \<open>localeCompare\<close>.\<close>

definition compareEnv ::
  "(string \<Rightarrow> string \<Rightarrow> int) \<Rightarrow> EnvVarSuggestion \<Rightarrow> EnvVarSuggestion \<Rightarrow> int" where
  "compareEnv localeCompare a b =
     (let idxA = indexOf priority (key a);
          idxB = indexOf priority (key b)
      in if idxA \<noteq> - 1 \<and> idxB \<noteq> - 1 then idxA - idxB
         else if idxA \<noteq> - 1 then - 1
         else if idxB \<noteq> - 1 then 1
         else localeCompare (key a) (key b))"

text \<open>\<open>Array.prototype.sort\<close> with a comparator is a stable sort: for a consistent comparator
  its result is the one of the stable insertion sort below. An element is placed before the
  first element it does not compare greater than.\<close>

fun insertBy :: "('a \<Rightarrow> 'a \<Rightarrow> int) \<Rightarrow> 'a \<Rightarrow> 'a list \<Rightarrow> 'a list" where
  "insertBy cmp x [] = [x]"
| "insertBy cmp x (y # ys) = (if cmp x y \<le> 0 then x # y # ys else y # insertBy cmp x ys)"

definition sortBy :: "('a \<Rightarrow> 'a \<Rightarrow> int) \<Rightarrow> 'a list \<Rightarrow> 'a list" where
  "sortBy cmp xs = foldr (insertBy cmp) xs []"

definition mergedVars :: "EnvVarSuggestion list \<Rightarrow> EnvVarSuggestion list" where
  "mergedVars prevVars =
     foldl (mergeStdVar (set (map key prevVars))) prevVars STANDARD_LLM_VARS"

text \<open>The state update of the effect that runs on mount.\<close>

definition mergeOnMount ::
  "(string \<Rightarrow> string \<Rightarrow> int) \<Rightarrow> AIAnalysisResult \<Rightarrow> AIAnalysisResult" where
  "mergeOnMount localeCompare prev =
     (let newVars = mergedVars (envVars prev);
          sorted = sortBy (compareEnv localeCompare) newVars;
          updatedDockerfile = cleanDockerfile (dockerfile prev) sorted
      in prev\<lparr>envVars := sorted, dockerfile := updatedDockerfile\<rparr>)"

text \<open>The state update of the effect that runs whenever \<open>envVars\<close> changes.\<close>

definition syncDockerfile :: "AIAnalysisResult \<Rightarrow> AIAnalysisResult" where
  "syncDockerfile prev = prev\<lparr>dockerfile := cleanDockerfile (dockerfile prev) (envVars prev)\<rparr>"

section \<open>\<open>AnalysisView\<close>: the compose file\<close>

text \<open>The decimal text of an integral number, as a template literal gives it (for numbers
  below \<open>10\<^sup>2\<^sup>1\<close> in magnitude). The port of an analysis is a \<open>number\<close> in the source; it
  is taken here to be an integer, which a port is, so the text of a fractional or a very
  large number (exponent notation) is outside the model.\<close>

function digitsOf :: "int \<Rightarrow> string" where
  "digitsOf n =
     (if n < 10 then [char_of (48 + n)] else digitsOf (n div 10) @ [char_of (48 + n mod 10)])"
  by pat_completeness auto
termination
  by (relation "measure nat") auto

definition numberText :: "int \<Rightarrow> string" where
  "numberText n = (if n < 0 then ''-'' @ digitsOf (- n) else digitsOf n)"

text \<open>\<open>a.filter((v, i, a) => a.findIndex(t => t.key === v.key) === i)\<close>\<close>

definition uniqueEnvs :: "EnvVarSuggestion list \<Rightarrow> EnvVarSuggestion list" where
  "uniqueEnvs a =
     map snd (filter (\<lambda>(i, v). findIndex (\<lambda>t. key t = key v) a = int i) (enumerate 0 a))"

definition composeLine :: "EnvVarSuggestion \<Rightarrow> string" where
  "composeLine env = ''      - '' @ key env @ ''=${'' @ key env @ ''}''"

definition envBlock :: "EnvVarSuggestion list \<Rightarrow> string" where
  "envBlock vars = joinStr [LF] (map composeLine (uniqueEnvs vars))"

definition dockerComposeContent :: "EnvVarSuggestion list \<Rightarrow> int \<Rightarrow> string" where
  "dockerComposeContent vars p =
     ''version: '3.8'' @ [SQ, LF] @
     ''services:'' @ [LF] @
     ''  app:'' @ [LF] @
     ''    build: .'' @ [LF] @
     ''    restart: always'' @ [LF] @
     ''    expose:'' @ [LF] @
     ''      - '' @ [DQ] @ numberText p @ [DQ, LF] @
     ''    networks:'' @ [LF] @
     ''      - coolify'' @ [LF] @
     ''    environment:'' @ [LF] @
     (if envBlock vars = [] then ''      # No environment variables defined'' else envBlock vars)
       @ [LF] @
     [LF] @
     ''networks:'' @ [LF] @
     ''  coolify:'' @ [LF] @
     ''    external: true'' @ [LF]"

section \<open>\<open>githubService\<close>: values, requests and replies\<close>

text \<open>
  A parsed JSON value is \<open>json\<close>; a JavaScript value that may be \<open>undefined\<close> is a
  \<open>json option\<close>, \<open>None\<close> being \<open>undefined\<close>. Reading a property of \<open>undefined\<close> or \<open>null\<close>
  throws a \<open>TypeError\<close>, reading an absent property gives \<open>undefined\<close>, and the last of
  several equal keys of an object wins. Numbers, booleans and arrays do not occur in what
  the service reads.
\<close>

datatype json = JNull | JString string | JObject "(string \<times> json) list"

datatype error =
    Error string
  | TypeError
  | SyntaxError
  | NetworkError
  | ReadError

fun getProp :: "json option \<Rightarrow> string \<Rightarrow> error + json option" where
  "getProp None f = Inl TypeError"
| "getProp (Some JNull) f = Inl TypeError"
| "getProp (Some (JString s)) f = Inr None"
| "getProp (Some (JObject kvs)) f = Inr (map_of (rev kvs) f)"

fun getIn :: "json option \<Rightarrow> string list \<Rightarrow> error + json option" where
  "getIn v [] = Inr v"
| "getIn v (f # fs) = (case getProp v f of Inl e \<Rightarrow> Inl e | Inr u \<Rightarrow> getIn u fs)"

fun truthy :: "json option \<Rightarrow> bool" where
  "truthy None = False"
| "truthy (Some JNull) = False"
| "truthy (Some (JString s)) = (s \<noteq> [])"
| "truthy (Some (JObject kvs)) = True"

text \<open>The text a value contributes to a template literal.\<close>

fun templ :: "json option \<Rightarrow> string" where
  "templ None = ''undefined''"
| "templ (Some JNull) = ''null''"
| "templ (Some (JString s)) = s"
| "templ (Some (JObject kvs)) = ''[object Object]''"

datatype encoding = Utf8 | Base64

record treeItem =
  t_path :: string
  t_mode :: string
  t_type :: string
  t_sha :: "json option"

text \<open>The argument of \<open>JSON.stringify\<close> in each request; \<open>parents\<close> of a commit is \<open>None\<close>
  when the property is not set.\<close>

datatype payload =
    NoBody
  | RepoBody (b_name: string) (b_description: string) (b_private: bool) (b_auto_init: bool)
  | BlobBody (b_content: "string option") (b_encoding: encoding)
  | TreeBody (b_base_tree: "json option") (b_tree: "treeItem list")
  | CommitBody (b_message: string) (b_commit_tree: "json option")
      (b_parents: "json option list option")
  | RefBody (b_sha: "json option") (b_force: bool)

text \<open>A request is its method, its address, the token of its \<open>Authorization\<close> header and
  its body; the \<open>Accept\<close> and \<open>Content-Type\<close> headers, the same in every request that has
  them, are left out.\<close>

record request =
  r_method :: string
  r_url :: string
  r_token :: string
  r_body :: payload

text \<open>What \<open>fetch\<close> gives: a rejection (the request did not complete), or a response with
  its status and its body, \<open>None\<close> when the body is not JSON and \<open>res.json()\<close> rejects.\<close>

datatype reply = Rejected | Response nat "json option"

definition ok :: "nat \<Rightarrow> bool" where
  "ok status = (200 \<le> status \<and> status \<le> 299)"

definition jsonOf :: "json option \<Rightarrow> error + json" where
  "jsonOf b = (case b of None \<Rightarrow> Inl SyntaxError | Some j \<Rightarrow> Inr j)"

text \<open>
  One run talks to the host sequentially, so the host is the sequence of replies it gives,
  in the order the run asks; a run that asks more often than the sequence is long is
  rejected. The world records what the run did: the calls of the progress callback, the
  requests with their replies, the warnings on the console.
\<close>

datatype event =
    Progress nat string
  | Fetch request reply
  | Warn string

record world =
  replies :: "reply list"
  events :: "event list"

definition onProgress :: "nat \<Rightarrow> string \<Rightarrow> world \<Rightarrow> world" where
  "onProgress percent status w = w\<lparr>events := events w @ [Progress percent status]\<rparr>"

definition warn :: "string \<Rightarrow> world \<Rightarrow> world" where
  "warn text w = w\<lparr>events := events w @ [Warn text]\<rparr>"

definition fetch :: "request \<Rightarrow> world \<Rightarrow> reply \<times> world" where
  "fetch req w =
     (case replies w of
        [] \<Rightarrow> (Rejected, w\<lparr>events := events w @ [Fetch req Rejected]\<rparr>)
      | r # rs \<Rightarrow> (r, w\<lparr>replies := rs, events := events w @ [Fetch req r]\<rparr>))"

definition GITHUB_API_BASE :: string where
  "GITHUB_API_BASE = ''https://api.github.com''"

definition repoUrl :: "string \<Rightarrow> string \<Rightarrow> string" where
  "repoUrl owner repo = GITHUB_API_BASE @ ''/repos/'' @ owner @ ''/'' @ repo"

section \<open>\<open>githubService\<close>: the operations\<close>


definition createBlob ::
  "string \<Rightarrow> string \<Rightarrow> string \<Rightarrow> string option \<Rightarrow> encoding \<Rightarrow> world
     \<Rightarrow> (error + json) \<times> world" where
  "createBlob token owner repo content enc w =
     (case fetch \<lparr>r_method = ''POST'', r_url = repoUrl owner repo @ ''/git/blobs'',
                  r_token = token, r_body = BlobBody content enc\<rparr> w of
        (Rejected, w1) \<Rightarrow> (Inl NetworkError, w1)
      | (Response status b, w1) \<Rightarrow>
          if \<not> ok status then (Inl (Error ''Failed to create blob''), w1)
          else (jsonOf b, w1))"

text \<open>A \<open>File\<close> is its size in bytes and what \<open>readAsDataURL\<close> gives for it, \<open>None\<close> when the reader
  reports an error. \<open>result.split(',')[1]\<close> is \<open>undefined\<close> when the result has no comma.\<close>

record File =
  f_size :: int
  f_dataURL :: "string option"

record FileEntry =
  path :: string
  content :: "string option"
  fileObject :: File

definition fileToMap :: "File \<Rightarrow> error + string option" where
  "fileToMap file =
     (case f_dataURL file of
        None \<Rightarrow> Inl ReadError
      | Some result \<Rightarrow>
          (let parts = splitStr (CHR '','') result
           in Inr (if 1 < length parts then Some (parts ! 1) else None)))"

section \<open>\<open>githubService\<close>: \<open>pushFilesToRepo\<close>\<close>

text \<open>Step 1: the reference to the head of \<open>main\<close>, and the tree of its commit. The result is
  the pair of \<open>baseTreeSha\<close> and \<open>parentCommitSha\<close>, both \<open>null\<close> when the response is not ok.\<close>

definition resolveBase ::
  "string \<Rightarrow> string \<Rightarrow> string \<Rightarrow> world \<Rightarrow> (error + json option \<times> json option) \<times> world" where
  "resolveBase token owner repo w =
     (case fetch \<lparr>r_method = ''GET'', r_url = repoUrl owner repo @ ''/git/refs/heads/main'',
                  r_token = token, r_body = NoBody\<rparr> w of
        (Rejected, w1) \<Rightarrow> (Inl NetworkError, w1)
      | (Response status b, w1) \<Rightarrow>
          if ok status then
            (case jsonOf b of
               Inl e \<Rightarrow> (Inl e, w1)
             | Inr refData \<Rightarrow>
                 (case getIn (Some refData) [''object'', ''sha''] of
                    Inl e \<Rightarrow> (Inl e, w1)
                  | Inr parentCommitSha \<Rightarrow>
                      (case fetch \<lparr>r_method = ''GET'',
                                   r_url = repoUrl owner repo @ ''/git/commits/''
                                             @ templ parentCommitSha,
                                   r_token = token, r_body = NoBody\<rparr> w1 of
                         (Rejected, w2) \<Rightarrow> (Inl NetworkError, w2)
                       | (Response status2 b2, w2) \<Rightarrow>
                           (case jsonOf b2 of
                              Inl e \<Rightarrow> (Inl e, w2)
                            | Inr commitData \<Rightarrow>
                                (case getIn (Some commitData) [''tree'', ''sha''] of
                                   Inl e \<Rightarrow> (Inl e, w2)
                                 | Inr baseTreeSha \<Rightarrow>
                                     (Inr (baseTreeSha, parentCommitSha), w2))))))
          else (Inr (Some JNull, Some JNull), w1))"

definition blobItem :: "string \<Rightarrow> json option \<Rightarrow> treeItem" where
  "blobItem p s = \<lparr>t_path = p, t_mode = ''100644'', t_type = ''blob'', t_sha = s\<rparr>"

text \<open>The body of the \<open>try\<close> block of the loop over the files.\<close>

definition uploadFile ::
  "string \<Rightarrow> string \<Rightarrow> string \<Rightarrow> FileEntry \<Rightarrow> world \<Rightarrow> (error + treeItem) \<times> world" where
  "uploadFile token owner repo file w =
     (case fileToMap (fileObject file) of
        Inl e \<Rightarrow> (Inl e, w)
      | Inr data \<Rightarrow>
          (case createBlob token owner repo data Base64 w of
             (Inl e, w1) \<Rightarrow> (Inl e, w1)
           | (Inr blob, w1) \<Rightarrow>
               (case getProp (Some blob) ''sha'' of
                  Inl e \<Rightarrow> (Inl e, w1)
                | Inr s \<Rightarrow> (Inr (blobItem (path file) s), w1))))"

definition skipped :: "FileEntry \<Rightarrow> bool" where
  "skipped file =
     (includesStr (path file) ''node_modules/'' \<or> includesStr (path file) ''.git/''
      \<or> includesStr (path file) ''.next/'' \<or> f_size (fileObject file) > 1024 * 1024)"

text \<open>
  The loop over the files, with the counter \<open>processed\<close> and the array \<open>treeItems\<close>.
  \<open>floor40 processed totalFiles\<close> stands for \<open>Math.floor((processed / totalFiles) * 40)\<close>,
  which the source computes in double-precision floating point; \<open>exactFloor40\<close> is its value
  in exact arithmetic.
\<close>

definition exactFloor40 :: "nat \<Rightarrow> nat \<Rightarrow> nat" where
  "exactFloor40 processed totalFiles = (processed * 40) div totalFiles"

fun uploadFiles ::
  "(nat \<Rightarrow> nat \<Rightarrow> nat) \<Rightarrow> string \<Rightarrow> string \<Rightarrow> string \<Rightarrow> nat \<Rightarrow> FileEntry list
     \<Rightarrow> nat \<Rightarrow> treeItem list \<Rightarrow> world \<Rightarrow> treeItem list \<times> world" where
  "uploadFiles floor40 token owner repo totalFiles [] processed treeItems w = (treeItems, w)"
| "uploadFiles floor40 token owner repo totalFiles (file # files) processed treeItems w =
     (if skipped file
      then uploadFiles floor40 token owner repo totalFiles files processed treeItems w
      else
        (let processed1 = processed + 1;
             progressPercent = 30 + floor40 processed1 totalFiles;
             w1 = onProgress progressPercent (''Uploading '' @ path file @ ''...'') w
         in case uploadFile token owner repo file w1 of
              (Inr item, w2) \<Rightarrow>
                uploadFiles floor40 token owner repo totalFiles files processed1
                  (treeItems @ [item]) w2
            | (Inl e, w2) \<Rightarrow>
                uploadFiles floor40 token owner repo totalFiles files processed1
                  treeItems (warn (''Failed to upload '' @ path file) w2)))"

text \<open>Step 5: the forced update of the reference.\<close>

definition updateRef ::
  "string \<Rightarrow> string \<Rightarrow> string \<Rightarrow> json \<Rightarrow> world \<Rightarrow> (error + unit) \<times> world" where
  "updateRef token owner repo newCommitData w =
     (let w1 = onProgress 95 ''Updating repository...'' w
      in case getProp (Some newCommitData) ''sha'' of
           Inl e \<Rightarrow> (Inl e, w1)
         | Inr newSha \<Rightarrow>
             (case fetch \<lparr>r_method = ''PATCH'',
                          r_url = repoUrl owner repo @ ''/git/refs/heads/main'',
                          r_token = token, r_body = RefBody newSha True\<rparr> w1 of
                (Rejected, w2) \<Rightarrow> (Inl NetworkError, w2)
              | (Response status b, w2) \<Rightarrow>
                  if \<not> ok status then (Inl (Error ''Failed to update ref''), w2)
                  else (Inr (), onProgress 100 ''Done!'' w2)))"

text \<open>Step 4: the commit; \<open>parents\<close> is set only when \<open>parentCommitSha\<close> is truthy.\<close>

definition parentsOf :: "json option \<Rightarrow> json option list option" where
  "parentsOf parentCommitSha = (if truthy parentCommitSha then Some [parentCommitSha] else None)"

definition createCommit ::
  "string \<Rightarrow> string \<Rightarrow> string \<Rightarrow> string \<Rightarrow> json option \<Rightarrow> json \<Rightarrow> world
     \<Rightarrow> (error + unit) \<times> world" where
  "createCommit token owner repo message parentCommitSha treeData w =
     (let w1 = onProgress 90 ''Committing changes...'' w
      in case getProp (Some treeData) ''sha'' of
           Inl e \<Rightarrow> (Inl e, w1)
         | Inr treeSha \<Rightarrow>
             (case fetch \<lparr>r_method = ''POST'', r_url = repoUrl owner repo @ ''/git/commits'',
                          r_token = token,
                          r_body = CommitBody message treeSha (parentsOf parentCommitSha)\<rparr>
                     w1 of
                (Rejected, w2) \<Rightarrow> (Inl NetworkError, w2)
              | (Response status b, w2) \<Rightarrow>
                  if \<not> ok status then (Inl (Error ''Failed to create commit''), w2)
                  else (case jsonOf b of
                          Inl e \<Rightarrow> (Inl e, w2)
                        | Inr newCommitData \<Rightarrow> updateRef token owner repo newCommitData w2)))"

text \<open>Step 3: the tree.\<close>

definition createTree ::
  "string \<Rightarrow> string \<Rightarrow> string \<Rightarrow> string \<Rightarrow> json option \<Rightarrow> json option \<Rightarrow> treeItem list
     \<Rightarrow> world \<Rightarrow> (error + unit) \<times> world" where
  "createTree token owner repo message baseTreeSha parentCommitSha treeItems w =
     (let w1 = onProgress 80 ''Creating file tree...'' w
      in case fetch \<lparr>r_method = ''POST'', r_url = repoUrl owner repo @ ''/git/trees'',
                     r_token = token, r_body = TreeBody baseTreeSha treeItems\<rparr> w1 of
           (Rejected, w2) \<Rightarrow> (Inl NetworkError, w2)
         | (Response status b, w2) \<Rightarrow>
             if \<not> ok status then (Inl (Error ''Failed to create tree''), w2)
             else (case jsonOf b of
                     Inl e \<Rightarrow> (Inl e, w2)
                   | Inr treeData \<Rightarrow>
                       createCommit token owner repo message parentCommitSha treeData w2))"

text \<open>Step 2: the blobs of the two generated files, then of the user's files.\<close>

definition uploadArtifact ::
  "string \<Rightarrow> string \<Rightarrow> string \<Rightarrow> string \<Rightarrow> string \<Rightarrow> world \<Rightarrow> (error + treeItem) \<times> world"
  where
  "uploadArtifact token owner repo name text w =
     (case createBlob token owner repo (Some text) Utf8 w of
        (Inl e, w1) \<Rightarrow> (Inl e, w1)
      | (Inr blob, w1) \<Rightarrow>
          (case getProp (Some blob) ''sha'' of
             Inl e \<Rightarrow> (Inl e, w1)
           | Inr s \<Rightarrow> (Inr (blobItem name s), w1)))"

definition uploadAll ::
  "(nat \<Rightarrow> nat \<Rightarrow> nat) \<Rightarrow> string \<Rightarrow> string \<Rightarrow> string \<Rightarrow> FileEntry list \<Rightarrow> string \<Rightarrow> string
     \<Rightarrow> world \<Rightarrow> (error + treeItem list) \<times> world" where
  "uploadAll floor40 token owner repo files dockerfileText composeText w =
     (case uploadArtifact token owner repo ''Dockerfile'' dockerfileText
             (onProgress 20 ''Uploading Dockerfile...'' w) of
        (Inl e, w1) \<Rightarrow> (Inl e, w1)
      | (Inr dockerItem, w1) \<Rightarrow>
          (case uploadArtifact token owner repo ''docker-compose.yaml'' composeText
                  (onProgress 25 ''Uploading docker-compose.yaml...'' w1) of
             (Inl e, w2) \<Rightarrow> (Inl e, w2)
           | (Inr composeItem, w2) \<Rightarrow>
               (case uploadFiles floor40 token owner repo (length files) files 0
                       [dockerItem, composeItem] w2 of
                  (treeItems, w3) \<Rightarrow> (Inr treeItems, w3))))"

definition pushFilesToRepo ::
  "(nat \<Rightarrow> nat \<Rightarrow> nat) \<Rightarrow> string \<Rightarrow> string \<Rightarrow> string \<Rightarrow> FileEntry list \<Rightarrow> string \<Rightarrow> string
     \<Rightarrow> string \<Rightarrow> world \<Rightarrow> (error + unit) \<times> world" where
  "pushFilesToRepo floor40 token owner repo files dockerfileText composeText message w =
     (case resolveBase token owner repo (onProgress 10 ''Getting repo info...'' w) of
        (Inl e, w1) \<Rightarrow> (Inl e, w1)
      | (Inr (baseTreeSha, parentCommitSha), w1) \<Rightarrow>
          (case uploadAll floor40 token owner repo files dockerfileText composeText w1 of
             (Inl e, w2) \<Rightarrow> (Inl e, w2)
           | (Inr treeItems, w2) \<Rightarrow>
               createTree token owner repo message baseTreeSha parentCommitSha treeItems w2))"

section \<open>\<open>App\<close>: \<open>handleDeploy\<close>\<close>

datatype Step = CREDENTIALS | SELECT_FOLDER | ANALYSIS | REVIEW | DEPLOYING | SUCCESS

datatype statusStep =
    S_idle | S_analyzing | S_creating_repo | S_uploading_blobs | S_creating_tree
  | S_committing | S_finished | S_error

record DeploymentStatus =
  d_step :: statusStep
  d_message :: string
  d_progress :: nat
  d_repoUrl :: "json option"

record GithubCreds =
  c_token :: string
  c_username :: string

text \<open>The state of the component that \<open>handleDeploy\<close> reads and sets. The error shown is
  \<open>"Deployment Failed: " + err.message\<close>; the state keeps the error that was caught.\<close>

record app =
  a_step :: Step
  a_creds :: GithubCreds
  a_files :: "FileEntry list"
  a_analysis :: "AIAnalysisResult option"
  a_deployStatus :: DeploymentStatus
  a_error :: "error option"




section \<open>Notions used to state the properties\<close>

text \<open>A list of variables is single-line when no key and no value holds a line feed, so
  that every declaration the build file gets for it is one line.\<close>

definition envVarsOneLine :: "EnvVarSuggestion list \<Rightarrow> bool" where
  "envVarsOneLine vars = (\<forall>v\<in>set vars. LF \<notin> set (key v) \<and> LF \<notin> set (valueOrEmpty v))"

text \<open>The lines of a build file that \<open>cleanDockerfile\<close> keeps, and the index of the line it
  inserts after.\<close>

definition keptLines :: "string \<Rightarrow> string list" where
  "keptLines d = filter (\<lambda>l. \<not> isEnvLine l) (splitStr LF d)"

definition anchorIdx :: "string list \<Rightarrow> int" where
  "anchorIdx ls =
     (let idxW = findIndex (\<lambda>l. includesStr l ''WORKDIR'') ls
      in if idxW = - 1 then findIndex (\<lambda>l. includesStr l ''FROM'') ls else idxW)"

definition envVar :: "string \<Rightarrow> string \<Rightarrow> EnvVarSuggestion" where
  "envVar k v = \<lparr>key = k, description = [], defaultValue = None, val = Some v\<rparr>"

definition multiLineVar :: EnvVarSuggestion where
  "multiLineVar = envVar ''K'' (''a'' @ [LF] @ ''b'')"

text \<open>A run starts in a world that has recorded nothing yet; \<open>rs\<close> are the replies the host
  is going to give.\<close>

definition startWorld :: "reply list \<Rightarrow> world" where
  "startWorld rs = \<lparr>replies = rs, events = []\<rparr>"

text \<open>What a sequence of events holds: the percent values delivered to the progress
  callback, the requests made, the trees and the commits sent.\<close>

fun percents :: "event list \<Rightarrow> nat list" where
  "percents [] = []"
| "percents (Progress p m # es) = p # percents es"
| "percents (Fetch req r # es) = percents es"
| "percents (Warn t # es) = percents es"

fun requestsOf :: "event list \<Rightarrow> request list" where
  "requestsOf [] = []"
| "requestsOf (Progress p m # es) = requestsOf es"
| "requestsOf (Fetch req r # es) = req # requestsOf es"
| "requestsOf (Warn t # es) = requestsOf es"

fun treeOf :: "request \<Rightarrow> (json option \<times> treeItem list) list" where
  "treeOf req = (case r_body req of TreeBody b items \<Rightarrow> [(b, items)] | _ \<Rightarrow> [])"

fun commitOf :: "request \<Rightarrow> (string \<times> json option \<times> json option list option) list" where
  "commitOf req = (case r_body req of CommitBody m t ps \<Rightarrow> [(m, t, ps)] | _ \<Rightarrow> [])"

definition treesSent :: "event list \<Rightarrow> (json option \<times> treeItem list) list" where
  "treesSent es = concat (map treeOf (requestsOf es))"

definition commitsSent ::
  "event list \<Rightarrow> (string \<times> json option \<times> json option list option) list" where
  "commitsSent es = concat (map commitOf (requestsOf es))"

text \<open>What is assumed of \<open>Math.floor((processed / totalFiles) * 40)\<close>: it grows with
  \<open>processed\<close>, and is at most 40 while \<open>processed\<close> is at most \<open>totalFiles\<close>. Division and
  multiplication of IEEE doubles round monotonically and \<open>1 * 40\<close> is exact, so the source's
  computation is an instance, and so is the exact quotient.\<close>

definition monotoneFloor40 :: "(nat \<Rightarrow> nat \<Rightarrow> nat) \<Rightarrow> bool" where
  "monotoneFloor40 floor40 =
     ((\<forall>p q t. p \<le> q \<and> q \<le> t \<longrightarrow> floor40 p t \<le> floor40 q t)
      \<and> (\<forall>p t. p \<le> t \<longrightarrow> floor40 p t \<le> 40))"

text \<open>The progress reported so far is non-decreasing and at most \<open>b\<close>.\<close>

definition progressUpTo :: "nat \<Rightarrow> world \<Rightarrow> bool" where
  "progressUpTo b w =
     (sorted (percents (events w)) \<and> (\<forall>p\<in>set (percents (events w)). p \<le> b))"

text \<open>How a run may end: with an error and no report of 100, or without an error and 100 as
  the last report.\<close>

definition endsWell :: "(error + unit) \<times> world \<Rightarrow> bool" where
  "endsWell rw =
     (case rw of
        (Inl e, w) \<Rightarrow> sorted (percents (events w)) \<and> 100 \<notin> set (percents (events w))
      | (Inr u, w) \<Rightarrow> sorted (percents (events w)) \<and> percents (events w) \<noteq> []
                      \<and> last (percents (events w)) = 100)"

text \<open>The reply a request gets in a world, and the world after the request.\<close>

definition nextReply :: "world \<Rightarrow> reply" where
  "nextReply w = (case replies w of [] \<Rightarrow> Rejected | r # rs \<Rightarrow> r)"

definition asked :: "request \<Rightarrow> world \<Rightarrow> world" where
  "asked req w = \<lparr>replies = tl (replies w), events = events w @ [Fetch req (nextReply w)]\<rparr>"

text \<open>A step that sends no tree and no commit.\<close>

definition sameSent :: "world \<Rightarrow> world \<Rightarrow> bool" where
  "sameSent w w' =
     (treesSent (events w') = treesSent (events w)
      \<and> commitsSent (events w') = commitsSent (events w))"

definition regularBlob :: "treeItem \<Rightarrow> bool" where
  "regularBlob item = (t_mode item = ''100644'' \<and> t_type item = ''blob'')"

text \<open>A reply with an ok status whose body is a JSON object, as the host gives when a
  request succeeds.\<close>

fun goodReply :: "reply \<Rightarrow> bool" where
  "goodReply (Response status (Some (JObject kvs))) = ok status"
| "goodReply r = False"

text \<open>The object name that a reply to the upload of a blob yields, \<open>None\<close> when the upload
  fails; the tree entries of the files whose upload succeeded, the \<open>i\<close>-th reply being the
  one to the \<open>i\<close>-th file.\<close>

fun uploadedSha :: "reply \<Rightarrow> json option option" where
  "uploadedSha (Response status (Some j)) =
     (if ok status
      then (case getProp (Some j) ''sha'' of Inr v \<Rightarrow> Some v | Inl e \<Rightarrow> None)
      else None)"
| "uploadedSha r = None"

fun uploadedItems :: "FileEntry list \<Rightarrow> reply list \<Rightarrow> treeItem list" where
  "uploadedItems (f # fs) (r # rs) =
     (case uploadedSha r of Some v \<Rightarrow> [blobItem (path f) v] | None \<Rightarrow> []) @ uploadedItems fs rs"
| "uploadedItems fs rs = []"

definition readable :: "FileEntry \<Rightarrow> bool" where
  "readable f = (f_dataURL (fileObject f) \<noteq> None)"

text \<open>The replies with which the resolution of the branch succeeds, and the base tree and
  parent commit it gives: one reply that is not ok, or an ok reply that names the commit at
  the tip and a reply that names the tree of that commit.\<close>

fun resolved :: "reply list \<Rightarrow> (json option \<times> json option) option" where
  "resolved [Response status b] = (if ok status then None else Some (Some JNull, Some JNull))"
| "resolved [Response status (Some refData), Response status2 (Some commitData)] =
     (if ok status
      then (case getIn (Some refData) [''object'', ''sha''] of
              Inl e \<Rightarrow> None
            | Inr pc \<Rightarrow>
                (case getIn (Some commitData) [''tree'', ''sha''] of
                   Inl e \<Rightarrow> None
                 | Inr bt \<Rightarrow> Some (bt, pc)))
      else None)"
| "resolved rs = None"

text \<open>A step only adds events to those recorded.\<close>

definition grows :: "world \<Rightarrow> world \<Rightarrow> bool" where
  "grows w w' = (\<exists>es. events w' = events w @ es)"

text \<open>The two requests a run starts with when the branch is not found: the one for the
  reference, and the upload of the build file.\<close>

definition refRequest :: "string \<Rightarrow> string \<Rightarrow> string \<Rightarrow> request" where
  "refRequest token owner repo =
     \<lparr>r_method = ''GET'', r_url = repoUrl owner repo @ ''/git/refs/heads/main'',
      r_token = token, r_body = NoBody\<rparr>"

definition blobRequest :: "string \<Rightarrow> string \<Rightarrow> string \<Rightarrow> string option \<Rightarrow> encoding \<Rightarrow> request"
  where
  "blobRequest token owner repo data enc =
     \<lparr>r_method = ''POST'', r_url = repoUrl owner repo @ ''/git/blobs'',
      r_token = token, r_body = BlobBody data enc\<rparr>"


text \<open>The elements of a list without their repetitions, each at its first occurrence.\<close>

fun firstOccurrences :: "'a list \<Rightarrow> 'a list" where
  "firstOccurrences [] = []"
| "firstOccurrences (x # xs) = x # filter (\<lambda>y. y \<noteq> x) (firstOccurrences xs)"

text \<open>A comparison of strings is consistent when \<open>a \<le> b\<close>, read as \<open>cmp a b \<le> 0\<close>, is total and
  transitive, as the collation of a locale is. The comparison by code units is one.\<close>

definition consistent :: "(string \<Rightarrow> string \<Rightarrow> int) \<Rightarrow> bool" where
  "consistent cmp =
     ((\<forall>a b. cmp a b \<le> 0 \<or> cmp b a \<le> 0)
      \<and> (\<forall>a b c. cmp a b \<le> 0 \<and> cmp b c \<le> 0 \<longrightarrow> cmp a c \<le> 0))"

definition codeUnitCompare :: "string \<Rightarrow> string \<Rightarrow> int" where
  "codeUnitCompare a b = (if a < b then - 1 else if a = b then 0 else 1)"

definition inPriority :: "EnvVarSuggestion \<Rightarrow> bool" where
  "inPriority v = (key v \<in> set priority)"

text \<open>
  When the resolution of the branch throws, read off the replies of the host. It does
  when the request for the reference is rejected; when the response to it is ok and its
  body is not JSON or \<open>object.sha\<close> cannot be read from it; and, after an ok response that
  names a commit, when the request for that commit is rejected or the body of the
  response to it, whatever its status, is not JSON or \<open>tree.sha\<close> cannot be read from it.
  A response to the first request that is not ok never makes it throw.
\<close>

fun resolutionError :: "reply list \<Rightarrow> error option" where
  "resolutionError [] = Some NetworkError"
| "resolutionError (Rejected # rs) = Some NetworkError"
| "resolutionError (Response status b # rs) =
     (if \<not> ok status then None
      else (case b of
              None \<Rightarrow> Some SyntaxError
            | Some refData \<Rightarrow>
                (case getIn (Some refData) [''object'', ''sha''] of
                   Inl e \<Rightarrow> Some TypeError
                 | Inr pc \<Rightarrow>
                     (case rs of
                        [] \<Rightarrow> Some NetworkError
                      | Rejected # rest \<Rightarrow> Some NetworkError
                      | Response status2 b2 # rest \<Rightarrow>
                          (case b2 of
                             None \<Rightarrow> Some SyntaxError
                           | Some commitData \<Rightarrow>
                               (case getIn (Some commitData) [''tree'', ''sha''] of
                                  Inl e \<Rightarrow> Some TypeError
                                | Inr bt \<Rightarrow> None))))))"

section \<open>Example data\<close>

text \<open>Replies as the host gives them, and a small readable file.\<close>

definition created :: "string \<Rightarrow> reply" where
  "created s = Response 201 (Some (JObject [(''sha'', JString s)]))"

definition notFound :: reply where
  "notFound = Response 404 (Some (JObject [(''message'', JString ''Not Found'')]))"

definition serverError :: reply where
  "serverError = Response 500 (Some (JObject [(''message'', JString ''Server Error'')]))"

definition refFound :: "string \<Rightarrow> reply" where
  "refFound s =
     Response 200 (Some (JObject [(''ref'', JString ''refs/heads/main''),
                                  (''object'', JObject [(''sha'', JString s)])]))"


definition updated :: reply where
  "updated = Response 200 (Some (JObject [(''ref'', JString ''refs/heads/main'')]))"

definition textFile :: "string \<Rightarrow> FileEntry" where
  "textFile p =
     \<lparr>path = p, content = None,
      fileObject = \<lparr>f_size = 5, f_dataURL = Some ''data:text/plain;base64,aGVsbG8=''\<rparr>\<rparr>"

text \<open>A run on a fresh branch over four files: one lies under \<open>node_modules/\<close>, the upload
  of one fails, two are uploaded.\<close>

definition exampleRun :: "(error + unit) \<times> world" where
  "exampleRun =
     pushFilesToRepo exactFloor40 ''token'' ''me'' ''app''
       [textFile ''a.txt'', textFile ''node_modules/x.js'', textFile ''b.txt'', textFile ''c.txt'']
       ''FROM node'' ''services:'' ''Update''
       (startWorld [notFound, created ''d1'', created ''c1'', created ''a1'', serverError,
                    created ''c3'', created ''t1'', created ''k1'', updated])"

text \<open>A run that the host cuts off after the first upload.\<close>

definition cutOffRun :: "(error + unit) \<times> world" where
  "cutOffRun =
     pushFilesToRepo exactFloor40 ''token'' ''me'' ''app'' [textFile ''a.txt'']
       ''FROM node'' ''services:'' ''Update'' (startWorld [notFound, created ''d1''])"

text \<open>A run over ten files, none excluded, where the upload of the fourth fails.\<close>

definition tenFiles :: "FileEntry list" where
  "tenFiles =
     map textFile [''f0.txt'', ''f1.txt'', ''f2.txt'', ''f3.txt'', ''f4.txt'', ''f5.txt'',
                   ''f6.txt'', ''f7.txt'', ''f8.txt'', ''f9.txt'']"

definition tenReplies :: "reply list" where
  "tenReplies =
     [created ''s0'', created ''s1'', created ''s2'', serverError, created ''s4'', created ''s5'',
      created ''s6'', created ''s7'', created ''s8'', created ''s9'']"

definition tenRun :: "(error + unit) \<times> world" where
  "tenRun =
     pushFilesToRepo exactFloor40 ''token'' ''me'' ''app'' tenFiles ''FROM node'' ''services:''
       ''Update''
       (startWorld ([notFound] @ created ''d1'' # created ''c1'' # tenReplies
                    @ [created ''t1'', created ''k1'', updated]))"

text \<open>A run with no files where the host answers the request for the branch with a server
  error, and one where that request is rejected.\<close>

definition serverErrorRun :: "(error + unit) \<times> world" where
  "serverErrorRun =
     pushFilesToRepo exactFloor40 ''token'' ''me'' ''app'' [] ''FROM node'' ''services:''
       ''Update''
       (startWorld [serverError, created ''d1'', created ''c1'', created ''t1'', created ''k1'',
                    updated])"

definition rejectedRun :: "(error + unit) \<times> world" where
  "rejectedRun =
     pushFilesToRepo exactFloor40 ''token'' ''me'' ''app'' [] ''FROM node'' ''services:''
       ''Update'' (startWorld [Rejected, created ''d1''])"

text \<open>A run over one file on a branch that does not exist yet, every later request
  succeeding.\<close>

definition freshRun :: "(error + unit) \<times> world" where
  "freshRun =
     pushFilesToRepo exactFloor40 ''token'' ''me'' ''app'' [textFile ''a.txt''] ''FROM node''
       ''services:'' ''Update''
       (startWorld [notFound, created ''d1'', created ''c1'', created ''a1'', created ''t1'',
                    created ''k1'', updated])"


definition exampleAnalysis :: AIAnalysisResult where
  "exampleAnalysis =
     \<lparr>projectName = ''app'', stack = ''node'', dockerfile = ''FROM node'', dockerCompose = None,
      envVars = [], explanation = [], port = 3000\<rparr>"



text \<open>Variables as an analysis may give them: a key given twice; and a list with a key of
  the priority list, a standard key with a value, a standard key with an empty value, and
  two other keys.\<close>

definition duplicateVars :: "EnvVarSuggestion list" where
  "duplicateVars = [envVar ''A'' ''secret'', envVar ''B'' ''2'', envVar ''A'' ''3'']"

definition otherValues :: "EnvVarSuggestion list" where
  "otherValues = [envVar ''A'' ''public'', envVar ''B'' [], envVar ''A'' []]"

definition seededAnalysis :: AIAnalysisResult where
  "seededAnalysis =
     exampleAnalysis
       \<lparr>envVars := [envVar ''ZED'' ''z'', envVar ''OPENROUTER_API_KEY'' ''x'',
                    envVar ''BASE_URL'' [], envVar ''PORT'' ''3000'', envVar ''APP_NAME'' ''demo'']\<rparr>"

text \<open>A run where the branch is found and the request for its commit gets a response that
  is not ok, with the body the host gives then.\<close>

definition lookupFailsRun :: "(error + unit) \<times> world" where
  "lookupFailsRun =
     pushFilesToRepo exactFloor40 ''token'' ''me'' ''app'' [] ''FROM node'' ''services:''
       ''Update'' (startWorld [refFound ''p0'', notFound, created ''d1''])"

text \<open>An analysis whose only variable has a value of two lines.\<close>

definition multiLineAnalysis :: AIAnalysisResult where
  "multiLineAnalysis = exampleAnalysis\<lparr>dockerfile := ''FROM x'', envVars := [multiLineVar]\<rparr>"

section \<open>Lines of a text\<close>

lemma splitStr_nonempty: "splitStr sep s \<noteq> []"
  by (induction s) (auto split: list.splits)

lemma joinStr_Cons: "ls \<noteq> [] \<Longrightarrow> joinStr sep (l # ls) = l @ sep @ joinStr sep ls"
  by (cases ls) auto

lemma joinStr_splitStr: "joinStr [sep] (splitStr sep s) = s"
proof (induction s)
  case Nil
  show ?case by simp
next
  case (Cons c cs)
  show ?case
  proof (cases "c = sep")
    case True
    then show ?thesis using Cons by (simp add: joinStr_Cons splitStr_nonempty)
  next
    case False
    obtain l ls where e: "splitStr sep cs = l # ls"
      using splitStr_nonempty by (cases "splitStr sep cs") auto
    show ?thesis
    proof (cases ls)
      case Nil
      then show ?thesis using False e Cons by simp
    next
      case (Cons m ms)
      then show ?thesis using False e Cons.IH by simp
    qed
  qed
qed

lemma splitStr_no_sep: "l \<in> set (splitStr sep s) \<Longrightarrow> sep \<notin> set l"
  by (induction s arbitrary: l) (auto split: if_splits list.splits)

lemma splitStr_line: "sep \<notin> set l \<Longrightarrow> splitStr sep l = [l]"
  by (induction l) auto

lemma splitStr_append: "sep \<notin> set l \<Longrightarrow> splitStr sep (l @ sep # r) = l # splitStr sep r"
  by (induction l) auto

lemma splitStr_joinStr:
  "ls \<noteq> [] \<Longrightarrow> \<forall>l\<in>set ls. sep \<notin> set l \<Longrightarrow> splitStr sep (joinStr [sep] ls) = ls"
proof (induction ls)
  case Nil
  then show ?case by simp
next
  case (Cons l ls)
  show ?case
  proof (cases ls)
    case Nil
    then show ?thesis using Cons.prems by (simp add: splitStr_line)
  next
    case (Cons m ms)
    then show ?thesis using Cons.prems Cons.IH by (simp add: splitStr_append)
  qed
qed

lemma findIndex_range: "- 1 \<le> findIndex P xs \<and> findIndex P xs < int (length xs)"
  by (induction xs) (auto simp: Let_def)

lemma splice_take_drop:
  "- 1 \<le> i \<Longrightarrow> i < int (length xs) \<Longrightarrow>
   splice (i + 1) items xs = take (nat (i + 1)) xs @ items @ drop (nat (i + 1)) xs"
  by (simp add: splice_def Let_def min_def)

lemma filter_keep_all: "\<forall>x\<in>set xs. P x \<Longrightarrow> filter P xs = xs"
  by (induction xs) auto

lemma filter_drop_all: "\<forall>x\<in>set xs. \<not> P x \<Longrightarrow> filter P xs = []"
  by (induction xs) auto

section \<open>The build file: regeneration\<close>

lemma trim_envLine: "trim (envLine v) = envLine v"
  by (simp add: trim_def envLine_def isWhiteSpace_def DQ_def)

lemma isEnvLine_envLine: "isEnvLine (envLine v)"
  by (simp add: isEnvLine_def trim_envLine) (simp add: envLine_def)

lemma envLine_no_LF:
  "LF \<notin> set (key v) \<Longrightarrow> LF \<notin> set (valueOrEmpty v) \<Longrightarrow> LF \<notin> set (envLine v)"
  by (auto simp: envLine_def LF_def DQ_def)

lemma cleanDockerfile_lines:
  "cleanDockerfile d vars =
     joinStr [LF] (splice (anchorIdx (keptLines d) + 1) (map envLine vars) (keptLines d))"
  by (simp add: cleanDockerfile_def keptLines_def anchorIdx_def Let_def)

lemma anchorIdx_range: "- 1 \<le> anchorIdx ls \<and> anchorIdx ls < int (length ls)"
  using findIndex_range [of "\<lambda>l. includesStr l ''WORKDIR''" ls]
        findIndex_range [of "\<lambda>l. includesStr l ''FROM''" ls]
  by (simp add: anchorIdx_def Let_def)

lemma keptLines_regenerated:
  assumes one: "envVarsOneLine vars"
    and ne: "splice (anchorIdx (keptLines d) + 1) (map envLine vars) (keptLines d) \<noteq> []"
  shows "keptLines (cleanDockerfile d vars) = keptLines d"
proof -
  let ?k = "keptLines d"
  let ?n = "nat (anchorIdx ?k + 1)"
  let ?e = "map envLine vars"
  have sp: "splice (anchorIdx ?k + 1) ?e ?k = take ?n ?k @ ?e @ drop ?n ?k"
    using anchorIdx_range [of ?k] by (intro splice_take_drop) auto
  have k_no: "\<forall>l\<in>set ?k. LF \<notin> set l"
    by (auto simp: keptLines_def dest: splitStr_no_sep)
  have e_no: "\<forall>l\<in>set ?e. LF \<notin> set l"
    using one envLine_no_LF by (fastforce simp: envVarsOneLine_def)
  have all_no: "\<forall>l\<in>set (take ?n ?k @ ?e @ drop ?n ?k). LF \<notin> set l"
    using k_no e_no by (auto dest: in_set_takeD in_set_dropD)
  have split_back: "splitStr LF (cleanDockerfile d vars) = take ?n ?k @ ?e @ drop ?n ?k"
    using ne all_no by (simp add: cleanDockerfile_lines sp splitStr_joinStr)
  have k_keep: "\<forall>l\<in>set ?k. \<not> isEnvLine l"
    by (simp add: keptLines_def)
  have f1: "filter (\<lambda>l. \<not> isEnvLine l) (take ?n ?k) = take ?n ?k"
    using k_keep by (intro filter_keep_all) (auto dest: in_set_takeD)
  have f2: "filter (\<lambda>l. \<not> isEnvLine l) (drop ?n ?k) = drop ?n ?k"
    using k_keep by (intro filter_keep_all) (auto dest: in_set_dropD)
  have f3: "filter (\<lambda>l. \<not> isEnvLine l) ?e = []"
    by (intro filter_drop_all) (auto simp: isEnvLine_envLine)
  show ?thesis
    unfolding keptLines_def [of "cleanDockerfile d vars"] split_back
    by (simp add: f1 f2 f3)
qed

lemma cleanDockerfile_no_lines:
  assumes "splice (anchorIdx (keptLines d) + 1) (map envLine vars) (keptLines d) = []"
  shows "cleanDockerfile (cleanDockerfile d vars) vars = cleanDockerfile d vars"
proof -
  have v: "vars = []"
    using assms by (auto simp: splice_def Let_def)
  have c: "cleanDockerfile d vars = []"
    using assms by (simp add: cleanDockerfile_lines)
  have "cleanDockerfile [] [] = []"
    by code_simp
  then show ?thesis using c v by simp
qed

text \<open>
  Regenerating the build file is idempotent when every declaration it emits is one line:
  for a list of variables whose keys and values hold no line feed, \<open>cleanDockerfile\<close>
  applied to its own output for that list gives the output again, character for character.
\<close>

theorem cleanDockerfile_idempotent:
  assumes "envVarsOneLine vars" and "B = cleanDockerfile B0 vars"
  shows "cleanDockerfile B vars = B"
proof (cases "splice (anchorIdx (keptLines B0) + 1) (map envLine vars) (keptLines B0) = []")
  case True
  then show ?thesis using assms(2) cleanDockerfile_no_lines by simp
next
  case False
  then have "keptLines B = keptLines B0"
    using assms keptLines_regenerated by simp
  then show ?thesis
    using assms(2) by (simp add: cleanDockerfile_lines)
qed

theorem cleanDockerfile_idempotent_witness:
  "envVarsOneLine [envVar ''PORT'' ''3000'', envVar ''HOST'' []]
   \<and> cleanDockerfile
        (cleanDockerfile (''FROM node'' @ [LF] @ ''ENV OLD=1'' @ [LF] @ ''WORKDIR /app'')
           [envVar ''PORT'' ''3000'', envVar ''HOST'' []])
        [envVar ''PORT'' ''3000'', envVar ''HOST'' []]
     = ''FROM node'' @ [LF] @ ''WORKDIR /app'' @ [LF] @ ''ENV PORT='' @ [DQ] @ ''3000'' @ [DQ]
         @ [LF] @ ''ENV HOST='' @ [DQ, DQ]"
proof -
  have h: "envVarsOneLine [envVar ''PORT'' ''3000'', envVar ''HOST'' []]"
    by code_simp
  have v: "cleanDockerfile (''FROM node'' @ [LF] @ ''ENV OLD=1'' @ [LF] @ ''WORKDIR /app'')
             [envVar ''PORT'' ''3000'', envVar ''HOST'' []]
           = ''FROM node'' @ [LF] @ ''WORKDIR /app'' @ [LF] @ ''ENV PORT='' @ [DQ] @ ''3000''
               @ [DQ] @ [LF] @ ''ENV HOST='' @ [DQ, DQ]"
    by code_simp
  show ?thesis
    using h v cleanDockerfile_idempotent [OF h refl,
        of "''FROM node'' @ [LF] @ ''ENV OLD=1'' @ [LF] @ ''WORKDIR /app''"]
    by simp
qed

text \<open>
  \<^bold>\<open>C2\<close>. Regeneration is not idempotent for every list of variables. The strip step works
  line by line, and a variable whose value holds a line feed gets a declaration of two
  lines, of which only the first starts with \<open>ENV\<close>. At the value \<open>a\<close>, line feed, \<open>b\<close> the
  build file regenerated from a regenerated build file has one more line, the second and
  the third regeneration differ again, and so does the file after the merge on mount and
  one further synchronisation.
\<close>

theorem cleanDockerfile_accumulates:
  "cleanDockerfile ''FROM x'' [multiLineVar]
     = ''FROM x'' @ [LF] @ ''ENV K='' @ [DQ] @ ''a'' @ [LF] @ ''b'' @ [DQ]
   \<and> cleanDockerfile (cleanDockerfile ''FROM x'' [multiLineVar]) [multiLineVar]
     = ''FROM x'' @ [LF] @ ''ENV K='' @ [DQ] @ ''a'' @ [LF] @ ''b'' @ [DQ] @ [LF] @ ''b'' @ [DQ]
   \<and> cleanDockerfile (cleanDockerfile (cleanDockerfile ''FROM x'' [multiLineVar]) [multiLineVar])
       [multiLineVar]
     = ''FROM x'' @ [LF] @ ''ENV K='' @ [DQ] @ ''a'' @ [LF] @ ''b'' @ [DQ] @ [LF] @ ''b'' @ [DQ]
         @ [LF] @ ''b'' @ [DQ]
   \<and> cleanDockerfile (cleanDockerfile ''FROM x'' [multiLineVar]) [multiLineVar]
     \<noteq> cleanDockerfile ''FROM x'' [multiLineVar]
   \<and> dockerfile (syncDockerfile (mergeOnMount codeUnitCompare multiLineAnalysis))
     \<noteq> dockerfile (mergeOnMount codeUnitCompare multiLineAnalysis)"
  by code_simp

section \<open>The sync run: what the events hold\<close>

lemma percents_append: "percents (xs @ ys) = percents xs @ percents ys"
  by (induction xs rule: percents.induct) auto

lemma requestsOf_append: "requestsOf (xs @ ys) = requestsOf xs @ requestsOf ys"
  by (induction xs rule: requestsOf.induct) auto

lemma treesSent_append: "treesSent (xs @ ys) = treesSent xs @ treesSent ys"
  by (simp add: treesSent_def requestsOf_append)

lemma commitsSent_append: "commitsSent (xs @ ys) = commitsSent xs @ commitsSent ys"
  by (simp add: commitsSent_def requestsOf_append)

lemma fetch_eq: "fetch req w = (nextReply w, asked req w)"
  by (cases w) (simp add: fetch_def nextReply_def asked_def split: list.splits)

lemma events_asked: "events (asked req w) = events w @ [Fetch req (nextReply w)]"
  by (simp add: asked_def)

lemma replies_asked: "replies (asked req w) = tl (replies w)"
  by (simp add: asked_def)

lemma events_onProgress: "events (onProgress p m w) = events w @ [Progress p m]"
  by (simp add: onProgress_def)

lemma replies_onProgress: "replies (onProgress p m w) = replies w"
  by (simp add: onProgress_def)

lemma events_warn: "events (warn t w) = events w @ [Warn t]"
  by (simp add: warn_def)

lemma replies_warn: "replies (warn t w) = replies w"
  by (simp add: warn_def)

lemmas world_simps = fetch_eq events_asked replies_asked events_onProgress replies_onProgress
  events_warn replies_warn percents_append

lemma percents_createBlob:
  "createBlob token owner repo c enc w = (res, w') \<Longrightarrow> percents (events w') = percents (events w)"
  by (auto simp: createBlob_def world_simps split: reply.splits if_splits)

lemma percents_uploadFile:
  "uploadFile token owner repo file w = (res, w') \<Longrightarrow> percents (events w') = percents (events w)"
  by (auto simp: uploadFile_def split: sum.splits prod.splits dest: percents_createBlob)

lemma percents_uploadArtifact:
  "uploadArtifact token owner repo name text w = (res, w') \<Longrightarrow>
   percents (events w') = percents (events w)"
  by (auto simp: uploadArtifact_def split: sum.splits prod.splits dest: percents_createBlob)

lemma percents_resolveBase:
  "resolveBase token owner repo w = (res, w') \<Longrightarrow> percents (events w') = percents (events w)"
  by (auto simp: resolveBase_def world_simps split: reply.splits if_splits sum.splits)

lemma progressUpTo_onProgress:
  "progressUpTo b w \<Longrightarrow> b \<le> p \<Longrightarrow> progressUpTo p (onProgress p m w)"
  by (auto simp: progressUpTo_def world_simps sorted_append)

lemma progressUpTo_same:
  "percents (events w') = percents (events w) \<Longrightarrow> progressUpTo b w \<Longrightarrow> progressUpTo b w'"
  by (simp add: progressUpTo_def)

lemma progressUpTo_le: "progressUpTo b w \<Longrightarrow> b \<le> c \<Longrightarrow> progressUpTo c w"
  by (auto simp: progressUpTo_def)

lemma progressUpTo_uploadFiles:
  assumes "monotoneFloor40 floor40"
  shows "uploadFiles floor40 token owner repo totalFiles files processed items w = (items', w') \<Longrightarrow>
     processed + length files \<le> totalFiles \<Longrightarrow>
     progressUpTo (30 + floor40 processed totalFiles) w \<Longrightarrow>
     progressUpTo 70 w'"
proof (induction files arbitrary: processed items w)
  case Nil
  have "floor40 processed totalFiles \<le> 40"
    using assms Nil.prems(2) by (simp add: monotoneFloor40_def)
  then show ?case using Nil by (auto intro: progressUpTo_le)
next
  case (Cons f fs)
  show ?case
  proof (cases "skipped f")
    case True
    then show ?thesis using Cons by simp
  next
    case False
    let ?p = "30 + floor40 (processed + 1) totalFiles"
    let ?w1 = "onProgress ?p (''Uploading '' @ path f @ ''...'') w"
    obtain r w2 where up: "uploadFile token owner repo f ?w1 = (r, w2)"
      by (cases "uploadFile token owner repo f ?w1") auto
    have le: "floor40 processed totalFiles \<le> floor40 (processed + 1) totalFiles"
      using assms Cons.prems(2) by (simp add: monotoneFloor40_def)
    have p1: "progressUpTo ?p ?w1"
      using Cons.prems(3) le by (intro progressUpTo_onProgress) auto
    have p2: "progressUpTo ?p w2"
      using percents_uploadFile [OF up] p1 by (rule progressUpTo_same)
    have p3: "progressUpTo ?p (warn t w2)" for t
      using p2 by (simp add: progressUpTo_def world_simps)
    show ?thesis
    proof (cases r)
      case (Inl e)
      then show ?thesis
        using Cons.prems False up p3 Cons.IH [of "processed + 1" items "warn (''Failed to upload '' @ path f) w2"]
        by (simp add: Let_def)
    next
      case (Inr item)
      then show ?thesis
        using Cons.prems False up p2 Cons.IH [of "processed + 1" "items @ [item]" w2]
        by (simp add: Let_def)
    qed
  qed
qed

lemma progressUpTo_asked: "progressUpTo b (asked req w) = progressUpTo b w"
  by (simp add: progressUpTo_def world_simps)

lemma endsWell_error:
  "progressUpTo b w \<Longrightarrow> b < 100 \<Longrightarrow> endsWell (Inl e, w)"
  by (auto simp: endsWell_def progressUpTo_def)

lemma endsWell_updateRef:
  assumes "progressUpTo 90 w"
  shows "endsWell (updateRef token owner repo newCommitData w)"
proof -
  let ?w1 = "onProgress 95 ''Updating repository...'' w"
  have p1: "progressUpTo 95 ?w1"
    using assms by (intro progressUpTo_onProgress) auto
  have err: "endsWell (Inl e, ?w1)" "endsWell (Inl e, asked req ?w1)" for e req
    using p1 by (auto intro: endsWell_error simp: progressUpTo_asked)
  have fin: "endsWell (Inr (), onProgress 100 ''Done!'' (asked req ?w1))" for req
    using p1 by (auto simp: endsWell_def progressUpTo_def world_simps sorted_append)
  show ?thesis
    using err fin
    by (simp add: updateRef_def fetch_eq Let_def split: sum.splits reply.splits)
qed

lemma endsWell_createCommit:
  assumes "progressUpTo 80 w"
  shows "endsWell (createCommit token owner repo message parentCommitSha treeData w)"
proof -
  let ?w1 = "onProgress 90 ''Committing changes...'' w"
  have p1: "progressUpTo 90 ?w1"
    using assms by (intro progressUpTo_onProgress) auto
  have err: "endsWell (Inl e, ?w1)" "endsWell (Inl e, asked req ?w1)" for e req
    using p1 by (auto intro: endsWell_error simp: progressUpTo_asked)
  have nxt: "endsWell (updateRef token owner repo d (asked req ?w1))" for d req
    using p1 by (intro endsWell_updateRef) (simp add: progressUpTo_asked)
  show ?thesis
    using err nxt
    by (simp add: createCommit_def fetch_eq Let_def jsonOf_def
        split: sum.splits reply.splits option.splits)
qed

lemma endsWell_createTree:
  assumes "progressUpTo 70 w"
  shows "endsWell (createTree token owner repo message baseTreeSha parentCommitSha treeItems w)"
proof -
  let ?w1 = "onProgress 80 ''Creating file tree...'' w"
  have p1: "progressUpTo 80 ?w1"
    using assms by (intro progressUpTo_onProgress) auto
  have err: "endsWell (Inl e, asked req ?w1)" for e req
    using p1 by (auto intro: endsWell_error simp: progressUpTo_asked)
  have nxt: "endsWell (createCommit token owner repo message parentCommitSha d (asked req ?w1))"
    for d req
    using p1 by (intro endsWell_createCommit) (simp add: progressUpTo_asked)
  show ?thesis
    using err nxt
    by (simp add: createTree_def fetch_eq Let_def jsonOf_def
        split: sum.splits reply.splits option.splits)
qed

lemma progressUpTo_uploadAll:
  assumes m: "monotoneFloor40 floor40"
    and u: "uploadAll floor40 token owner repo files dockerfileText composeText w = (res, w')"
    and p: "progressUpTo 10 w"
  shows "progressUpTo 70 w'"
proof -
  let ?w0 = "onProgress 20 ''Uploading Dockerfile...'' w"
  have p0: "progressUpTo 20 ?w0"
    using p by (intro progressUpTo_onProgress) auto
  obtain r1 w1 where a1: "uploadArtifact token owner repo ''Dockerfile'' dockerfileText ?w0 = (r1, w1)"
    by (cases "uploadArtifact token owner repo ''Dockerfile'' dockerfileText ?w0") auto
  have p1: "progressUpTo 20 w1"
    using percents_uploadArtifact [OF a1] p0 by (rule progressUpTo_same)
  show ?thesis
  proof (cases r1)
    case (Inl e)
    then show ?thesis using u a1 p1 by (auto simp: uploadAll_def intro: progressUpTo_le)
  next
    case (Inr dockerItem)
    let ?w1 = "onProgress 25 ''Uploading docker-compose.yaml...'' w1"
    have p1': "progressUpTo 25 ?w1"
      using p1 by (intro progressUpTo_onProgress) auto
    obtain r2 w2 where
      a2: "uploadArtifact token owner repo ''docker-compose.yaml'' composeText ?w1 = (r2, w2)"
      by (cases "uploadArtifact token owner repo ''docker-compose.yaml'' composeText ?w1") auto
    have p2: "progressUpTo 25 w2"
      using percents_uploadArtifact [OF a2] p1' by (rule progressUpTo_same)
    show ?thesis
    proof (cases r2)
      case (Inl e)
      then show ?thesis
        using u a1 a2 p2 \<open>r1 = Inr dockerItem\<close> by (auto simp: uploadAll_def intro: progressUpTo_le)
    next
      case (Inr composeItem)
      obtain items w3 where
        fs: "uploadFiles floor40 token owner repo (length files) files 0
               [dockerItem, composeItem] w2 = (items, w3)"
        by (cases "uploadFiles floor40 token owner repo (length files) files 0
               [dockerItem, composeItem] w2") auto
      have "progressUpTo (30 + floor40 0 (length files)) w2"
        using p2 by (rule progressUpTo_le) simp
      then have "progressUpTo 70 w3"
        using progressUpTo_uploadFiles [OF m fs] by simp
      then show ?thesis
        using u a1 a2 fs Inr \<open>r1 = Inr dockerItem\<close> by (simp add: uploadAll_def)
    qed
  qed
qed

lemma endsWell_pushFilesToRepo:
  assumes "monotoneFloor40 floor40"
  shows "endsWell (pushFilesToRepo floor40 token owner repo files dockerfileText composeText
                     message (startWorld rs))"
proof -
  let ?w0 = "onProgress 10 ''Getting repo info...'' (startWorld rs)"
  have p0: "progressUpTo 10 ?w0"
    by (simp add: progressUpTo_def startWorld_def world_simps)
  obtain r1 w1 where rb: "resolveBase token owner repo ?w0 = (r1, w1)"
    by (cases "resolveBase token owner repo ?w0") auto
  have p1: "progressUpTo 10 w1"
    using percents_resolveBase [OF rb] p0 by (rule progressUpTo_same)
  show ?thesis
  proof (cases r1)
    case (Inl e)
    then show ?thesis
      using rb p1 by (auto simp: pushFilesToRepo_def intro: endsWell_error)
  next
    case (Inr bp)
    obtain baseTreeSha parentCommitSha where bp: "bp = (baseTreeSha, parentCommitSha)"
      by (cases bp) auto
    obtain r2 w2 where
      ua: "uploadAll floor40 token owner repo files dockerfileText composeText w1 = (r2, w2)"
      by (cases "uploadAll floor40 token owner repo files dockerfileText composeText w1") auto
    have p2: "progressUpTo 70 w2"
      using progressUpTo_uploadAll [OF assms ua p1] .
    show ?thesis
    proof (cases r2)
      case (Inl e)
      then show ?thesis
        using rb ua Inr bp p2 by (auto simp: pushFilesToRepo_def intro: endsWell_error)
    next
      case (Inr treeItems)
      then show ?thesis
        using rb ua \<open>r1 = Inr bp\<close> bp endsWell_createTree [OF p2]
        by (simp add: pushFilesToRepo_def)
    qed
  qed
qed

lemma treesSent_Cons:
  "treesSent [] = []"
  "treesSent (Progress p m # es) = treesSent es"
  "treesSent (Warn t # es) = treesSent es"
  "treesSent (Fetch req r # es) = treeOf req @ treesSent es"
  by (simp_all add: treesSent_def)

lemma commitsSent_Cons:
  "commitsSent [] = []"
  "commitsSent (Progress p m # es) = commitsSent es"
  "commitsSent (Warn t # es) = commitsSent es"
  "commitsSent (Fetch req r # es) = commitOf req @ commitsSent es"
  by (simp_all add: commitsSent_def)

lemmas sent_simps = fetch_eq events_asked replies_asked events_onProgress replies_onProgress
  events_warn replies_warn treesSent_append commitsSent_append treesSent_Cons commitsSent_Cons

lemma sameSent_refl: "sameSent w w"
  by (simp add: sameSent_def)

lemma sameSent_trans: "sameSent w w1 \<Longrightarrow> sameSent w1 w2 \<Longrightarrow> sameSent w w2"
  by (simp add: sameSent_def)

lemma sameSent_onProgress: "sameSent w (onProgress p m w)"
  by (simp add: sameSent_def sent_simps)

lemma sameSent_warn: "sameSent w (warn t w)"
  by (simp add: sameSent_def sent_simps)

lemma sameSent_createBlob:
  "createBlob token owner repo c enc w = (res, w') \<Longrightarrow> sameSent w w'"
  by (auto simp: createBlob_def sameSent_def sent_simps split: reply.splits if_splits)

lemma sameSent_uploadFile:
  "uploadFile token owner repo f w = (res, w') \<Longrightarrow> sameSent w w'"
  by (auto simp: uploadFile_def sameSent_refl split: sum.splits prod.splits
      dest: sameSent_createBlob)

lemma sameSent_uploadArtifact:
  "uploadArtifact token owner repo name text w = (res, w') \<Longrightarrow> sameSent w w'"
  by (auto simp: uploadArtifact_def split: sum.splits prod.splits dest: sameSent_createBlob)

lemma sameSent_resolveBase:
  "resolveBase token owner repo w = (res, w') \<Longrightarrow> sameSent w w'"
  by (auto simp: resolveBase_def sameSent_def sent_simps split: reply.splits if_splits sum.splits)

lemma regularBlob_blobItem: "regularBlob (blobItem p s)"
  by (simp add: regularBlob_def blobItem_def)

lemma uploadFile_item:
  "uploadFile token owner repo f w = (Inr item, w') \<Longrightarrow> \<exists>s. item = blobItem (path f) s"
  by (auto simp: uploadFile_def split: sum.splits prod.splits)

lemma uploadArtifact_item:
  "uploadArtifact token owner repo name text w = (Inr item, w') \<Longrightarrow> \<exists>s. item = blobItem name s"
  by (auto simp: uploadArtifact_def split: sum.splits prod.splits)

lemma uploadFiles_sent:
  "uploadFiles floor40 token owner repo totalFiles files processed items w = (items', w') \<Longrightarrow>
   sameSent w w'"
proof (induction files arbitrary: processed items w)
  case Nil
  then show ?case by (simp add: sameSent_refl)
next
  case (Cons f fs)
  show ?case
  proof (cases "skipped f")
    case True
    then show ?thesis using Cons by simp
  next
    case False
    let ?w1 = "onProgress (30 + floor40 (processed + 1) totalFiles)
                 (''Uploading '' @ path f @ ''...'') w"
    obtain r w2 where up: "uploadFile token owner repo f ?w1 = (r, w2)"
      by (cases "uploadFile token owner repo f ?w1") auto
    have s2: "sameSent w w2"
      using sameSent_onProgress sameSent_uploadFile [OF up] by (rule sameSent_trans)
    show ?thesis
    proof (cases r)
      case (Inl e)
      have "sameSent w (warn (''Failed to upload '' @ path f) w2)"
        using s2 sameSent_warn by (rule sameSent_trans)
      moreover have "sameSent (warn (''Failed to upload '' @ path f) w2) w'"
        using Cons.prems False up Inl
          Cons.IH [of "processed + 1" items "warn (''Failed to upload '' @ path f) w2"]
        by (simp add: Let_def)
      ultimately show ?thesis by (rule sameSent_trans)
    next
      case (Inr item)
      then have "sameSent w2 w'"
        using Cons.prems False up Cons.IH [of "processed + 1" "items @ [item]" w2]
        by (simp add: Let_def)
      with s2 show ?thesis by (rule sameSent_trans)
    qed
  qed
qed

lemma uploadFiles_regular:
  "uploadFiles floor40 token owner repo totalFiles files processed items w = (items', w') \<Longrightarrow>
   \<forall>i\<in>set items. regularBlob i \<Longrightarrow> \<forall>i\<in>set items'. regularBlob i"
proof (induction files arbitrary: processed items w)
  case Nil
  then show ?case by simp
next
  case (Cons f fs)
  show ?case
  proof (cases "skipped f")
    case True
    then show ?thesis using Cons by simp
  next
    case False
    let ?w1 = "onProgress (30 + floor40 (processed + 1) totalFiles)
                 (''Uploading '' @ path f @ ''...'') w"
    obtain r w2 where up: "uploadFile token owner repo f ?w1 = (r, w2)"
      by (cases "uploadFile token owner repo f ?w1") auto
    show ?thesis
    proof (cases r)
      case (Inl e)
      then show ?thesis
        using Cons.prems False up
          Cons.IH [of "processed + 1" items "warn (''Failed to upload '' @ path f) w2"]
        by (simp add: Let_def)
    next
      case (Inr item)
      have "regularBlob item"
        using uploadFile_item [OF up [unfolded Inr]] by (auto simp: regularBlob_blobItem)
      then show ?thesis
        using Cons.prems False up Inr Cons.IH [of "processed + 1" "items @ [item]" w2]
        by (simp add: Let_def)
    qed
  qed
qed

lemma uploadAll_sent:
  assumes "uploadAll floor40 token owner repo files dockerfileText composeText w = (res, w')"
  shows "sameSent w w'"
proof -
  let ?w0 = "onProgress 20 ''Uploading Dockerfile...'' w"
  obtain r1 w1 where a1: "uploadArtifact token owner repo ''Dockerfile'' dockerfileText ?w0 = (r1, w1)"
    by (cases "uploadArtifact token owner repo ''Dockerfile'' dockerfileText ?w0") auto
  have s1: "sameSent w w1"
    using sameSent_onProgress sameSent_uploadArtifact [OF a1] by (rule sameSent_trans)
  show ?thesis
  proof (cases r1)
    case (Inl e)
    then show ?thesis using assms a1 s1 by (auto simp: uploadAll_def)
  next
    case (Inr dockerItem)
    let ?w1 = "onProgress 25 ''Uploading docker-compose.yaml...'' w1"
    obtain r2 w2 where
      a2: "uploadArtifact token owner repo ''docker-compose.yaml'' composeText ?w1 = (r2, w2)"
      by (cases "uploadArtifact token owner repo ''docker-compose.yaml'' composeText ?w1") auto
    have "sameSent w1 w2"
      using sameSent_onProgress sameSent_uploadArtifact [OF a2] by (rule sameSent_trans)
    then have s2: "sameSent w w2"
      using s1 sameSent_trans by blast
    show ?thesis
    proof (cases r2)
      case (Inl e)
      then show ?thesis
        using assms a1 a2 s2 \<open>r1 = Inr dockerItem\<close> by (auto simp: uploadAll_def)
    next
      case (Inr composeItem)
      obtain items w3 where
        fs: "uploadFiles floor40 token owner repo (length files) files 0
               [dockerItem, composeItem] w2 = (items, w3)"
        by (cases "uploadFiles floor40 token owner repo (length files) files 0
               [dockerItem, composeItem] w2") auto
      have "sameSent w w3"
        using s2 uploadFiles_sent [OF fs] by (rule sameSent_trans)
      then show ?thesis
        using assms a1 a2 fs Inr \<open>r1 = Inr dockerItem\<close> by (simp add: uploadAll_def)
    qed
  qed
qed

lemma uploadAll_regular:
  assumes "uploadAll floor40 token owner repo files dockerfileText composeText w = (Inr items, w')"
  shows "\<forall>i\<in>set items. regularBlob i"
proof -
  let ?w0 = "onProgress 20 ''Uploading Dockerfile...'' w"
  obtain r1 w1 where a1: "uploadArtifact token owner repo ''Dockerfile'' dockerfileText ?w0 = (r1, w1)"
    by (cases "uploadArtifact token owner repo ''Dockerfile'' dockerfileText ?w0") auto
  show ?thesis
  proof (cases r1)
    case (Inl e)
    then show ?thesis using assms a1 by (auto simp: uploadAll_def)
  next
    case (Inr dockerItem)
    let ?w1 = "onProgress 25 ''Uploading docker-compose.yaml...'' w1"
    obtain r2 w2 where
      a2: "uploadArtifact token owner repo ''docker-compose.yaml'' composeText ?w1 = (r2, w2)"
      by (cases "uploadArtifact token owner repo ''docker-compose.yaml'' composeText ?w1") auto
    show ?thesis
    proof (cases r2)
      case (Inl e)
      then show ?thesis
        using assms a1 a2 \<open>r1 = Inr dockerItem\<close> by (auto simp: uploadAll_def)
    next
      case (Inr composeItem)
      obtain items3 w3 where
        fs: "uploadFiles floor40 token owner repo (length files) files 0
               [dockerItem, composeItem] w2 = (items3, w3)"
        by (cases "uploadFiles floor40 token owner repo (length files) files 0
               [dockerItem, composeItem] w2") auto
      have "regularBlob dockerItem"
        using uploadArtifact_item [OF a1 [unfolded \<open>r1 = Inr dockerItem\<close>]]
        by (auto simp: regularBlob_blobItem)
      moreover have "regularBlob composeItem"
        using uploadArtifact_item [OF a2 [unfolded Inr]]
        by (auto simp: regularBlob_blobItem)
      ultimately have "\<forall>i\<in>set [dockerItem, composeItem]. regularBlob i"
        by simp
      then have "\<forall>i\<in>set items3. regularBlob i"
        by (rule uploadFiles_regular [OF fs])
      moreover have "items3 = items"
        using assms a1 a2 fs Inr \<open>r1 = Inr dockerItem\<close> by (simp add: uploadAll_def)
      ultimately show ?thesis by simp
    qed
  qed
qed

lemma updateRef_sent:
  "updateRef token owner repo newCommitData w = (res, w') \<Longrightarrow> sameSent w w'"
  by (auto simp: updateRef_def sameSent_def sent_simps Let_def
      split: sum.splits reply.splits if_splits)

lemma createCommit_sent:
  assumes "createCommit token owner repo message pc treeData w = (res, w')"
  shows "treesSent (events w') = treesSent (events w)
         \<and> (commitsSent (events w') = commitsSent (events w)
            \<or> (\<exists>t. commitsSent (events w') = commitsSent (events w) @ [(message, t, parentsOf pc)]))"
proof -
  let ?w1 = "onProgress 90 ''Committing changes...'' w"
  show ?thesis
  proof (cases "getProp (Some treeData) ''sha''")
    case (Inl e)
    then show ?thesis using assms by (auto simp: createCommit_def sent_simps Let_def)
  next
    case (Inr t)
    let ?req = "\<lparr>r_method = ''POST'', r_url = repoUrl owner repo @ ''/git/commits'',
                 r_token = token, r_body = CommitBody message t (parentsOf pc)\<rparr>"
    let ?w2 = "asked ?req ?w1"
    have t2: "treesSent (events ?w2) = treesSent (events w)"
      by (simp add: sent_simps)
    have c2: "commitsSent (events ?w2) = commitsSent (events w) @ [(message, t, parentsOf pc)]"
      by (simp add: sent_simps)
    have "w' = ?w2 \<or> (\<exists>d. updateRef token owner repo d ?w2 = (res, w'))"
      using assms Inr
      by (auto simp: createCommit_def fetch_eq Let_def jsonOf_def
          split: reply.splits if_splits option.splits)
    then show ?thesis
    proof
      assume "w' = ?w2"
      then show ?thesis using t2 c2 by simp
    next
      assume "\<exists>d. updateRef token owner repo d ?w2 = (res, w')"
      then obtain d where "updateRef token owner repo d ?w2 = (res, w')" ..
      then have "sameSent ?w2 w'" by (rule updateRef_sent)
      then show ?thesis using t2 c2 by (simp add: sameSent_def)
    qed
  qed
qed

lemma createTree_sent:
  assumes "createTree token owner repo message bt pc items w = (res, w')"
  shows "treesSent (events w') = treesSent (events w) @ [(bt, items)]
         \<and> (commitsSent (events w') = commitsSent (events w)
            \<or> (\<exists>t. commitsSent (events w') = commitsSent (events w) @ [(message, t, parentsOf pc)]))"
proof -
  let ?req = "\<lparr>r_method = ''POST'', r_url = repoUrl owner repo @ ''/git/trees'',
               r_token = token, r_body = TreeBody bt items\<rparr>"
  let ?w2 = "asked ?req (onProgress 80 ''Creating file tree...'' w)"
  have t2: "treesSent (events ?w2) = treesSent (events w) @ [(bt, items)]"
    by (simp add: sent_simps)
  have c2: "commitsSent (events ?w2) = commitsSent (events w)"
    by (simp add: sent_simps)
  have "w' = ?w2 \<or> (\<exists>d. createCommit token owner repo message pc d ?w2 = (res, w'))"
    using assms
    by (auto simp: createTree_def fetch_eq Let_def jsonOf_def
        split: reply.splits if_splits option.splits)
  then show ?thesis
  proof
    assume "w' = ?w2"
    then show ?thesis using t2 c2 by simp
  next
    assume "\<exists>d. createCommit token owner repo message pc d ?w2 = (res, w')"
    then obtain d where "createCommit token owner repo message pc d ?w2 = (res, w')" ..
    from createCommit_sent [OF this] show ?thesis using t2 c2 by simp
  qed
qed

lemma pushFilesToRepo_sent:
  assumes "pushFilesToRepo floor40 token owner repo files dockerfileText composeText message w0
             = (res, w)"
  shows "(treesSent (events w) = treesSent (events w0)
          \<and> commitsSent (events w) = commitsSent (events w0))
       \<or> (\<exists>bt pc w1 items w2.
            resolveBase token owner repo (onProgress 10 ''Getting repo info...'' w0)
              = (Inr (bt, pc), w1)
            \<and> uploadAll floor40 token owner repo files dockerfileText composeText w1
              = (Inr items, w2)
            \<and> treesSent (events w) = treesSent (events w0) @ [(bt, items)]
            \<and> (commitsSent (events w) = commitsSent (events w0)
               \<or> (\<exists>t. commitsSent (events w)
                        = commitsSent (events w0) @ [(message, t, parentsOf pc)])))"
proof -
  let ?w0 = "onProgress 10 ''Getting repo info...'' w0"
  obtain r1 w1 where rb: "resolveBase token owner repo ?w0 = (r1, w1)"
    by (cases "resolveBase token owner repo ?w0") auto
  have s1: "sameSent w0 w1"
    using sameSent_onProgress sameSent_resolveBase [OF rb] by (rule sameSent_trans)
  show ?thesis
  proof (cases r1)
    case (Inl e)
    then have "w = w1" using assms rb by (simp add: pushFilesToRepo_def)
    then show ?thesis using s1 by (simp add: sameSent_def)
  next
    case (Inr bp)
    obtain bt pc where bp: "bp = (bt, pc)" by (cases bp) auto
    obtain r2 w2 where
      ua: "uploadAll floor40 token owner repo files dockerfileText composeText w1 = (r2, w2)"
      by (cases "uploadAll floor40 token owner repo files dockerfileText composeText w1") auto
    have s2: "sameSent w0 w2"
      using s1 uploadAll_sent [OF ua] by (rule sameSent_trans)
    show ?thesis
    proof (cases r2)
      case (Inl e)
      then have "w = w2" using assms rb ua Inr bp by (simp add: pushFilesToRepo_def)
      then show ?thesis using s2 by (simp add: sameSent_def)
    next
      case (Inr items)
      have ct: "createTree token owner repo message bt pc items w2 = (res, w)"
        using assms rb ua \<open>r1 = Inr bp\<close> bp Inr by (simp add: pushFilesToRepo_def)
      have "treesSent (events w) = treesSent (events w0) @ [(bt, items)]
            \<and> (commitsSent (events w) = commitsSent (events w0)
               \<or> (\<exists>t. commitsSent (events w)
                        = commitsSent (events w0) @ [(message, t, parentsOf pc)]))"
        using createTree_sent [OF ct] s2 by (simp add: sameSent_def)
      then show ?thesis
        using rb ua \<open>r1 = Inr bp\<close> bp Inr by blast
    qed
  qed
qed

lemma startWorld_sent:
  "treesSent (events (startWorld rs)) = []" "commitsSent (events (startWorld rs)) = []"
  by (simp_all add: startWorld_def treesSent_Cons commitsSent_Cons)

lemma nextReply_Cons: "replies w = r # rs \<Longrightarrow> nextReply w = r"
  by (simp add: nextReply_def)

lemma goodReply_cases:
  assumes "goodReply r"
  obtains status kvs where "r = Response status (Some (JObject kvs))" "ok status"
  using assms by (cases r rule: goodReply.cases) auto

lemma uploadArtifact_good:
  assumes "replies w = a # rest" and "goodReply a"
  shows "\<exists>s w'. uploadArtifact token owner repo name text w = (Inr (blobItem name s), w')
           \<and> replies w' = rest \<and> sameSent w w'"
proof -
  obtain status kvs where a: "a = Response status (Some (JObject kvs))" "ok status"
    using assms(2) by (rule goodReply_cases)
  have n: "nextReply w = a" using assms(1) by (rule nextReply_Cons)
  show ?thesis
    using a n assms(1)
    by (auto simp: uploadArtifact_def createBlob_def jsonOf_def sameSent_def sent_simps)
qed

lemma uploadFile_readable:
  assumes "readable f" and "replies w = r # rest"
  shows "\<exists>res w'. uploadFile token owner repo f w = (res, w') \<and> replies w' = rest
           \<and> (case uploadedSha r of
                 Some v \<Rightarrow> res = Inr (blobItem (path f) v)
               | None \<Rightarrow> (\<exists>e. res = Inl e))"
proof -
  obtain u where u: "f_dataURL (fileObject f) = Some u"
    using assms(1) by (auto simp: readable_def)
  have n: "nextReply w = r" using assms(2) by (rule nextReply_Cons)
  show ?thesis
  proof (cases r)
    case Rejected
    then show ?thesis
      using u n assms(2)
      by (simp add: uploadFile_def fileToMap_def createBlob_def Let_def sent_simps)
  next
    case (Response status b)
    then show ?thesis
      using u n assms(2)
      by (cases b)
         (auto simp: uploadFile_def fileToMap_def createBlob_def Let_def sent_simps jsonOf_def
            split: sum.splits)
  qed
qed

lemma uploadFiles_exact:
  "\<forall>f\<in>set files. \<not> skipped f \<and> readable f \<Longrightarrow> length frs = length files \<Longrightarrow>
   replies w = frs @ rest \<Longrightarrow>
   \<exists>w'. uploadFiles floor40 token owner repo totalFiles files processed items w
          = (items @ uploadedItems files frs, w') \<and> replies w' = rest"
proof (induction files arbitrary: frs processed items w)
  case Nil
  then show ?case by simp
next
  case (Cons f fs)
  obtain r rs where frs: "frs = r # rs" and len: "length rs = length fs"
    using Cons.prems(2) by (cases frs) auto
  let ?w1 = "onProgress (30 + floor40 (processed + 1) totalFiles)
               (''Uploading '' @ path f @ ''...'') w"
  have rep1: "replies ?w1 = r # (rs @ rest)"
    using Cons.prems(3) frs by (simp add: sent_simps)
  have rd: "readable f" and ns: "\<not> skipped f"
    using Cons.prems(1) by auto
  obtain res w2 where up: "uploadFile token owner repo f ?w1 = (res, w2)"
    and rep2: "replies w2 = rs @ rest"
    and out: "case uploadedSha r of
                 Some v \<Rightarrow> res = Inr (blobItem (path f) v)
               | None \<Rightarrow> (\<exists>e. res = Inl e)"
    using uploadFile_readable [OF rd rep1, of token owner repo] by blast
  have rest_ok: "\<forall>f\<in>set fs. \<not> skipped f \<and> readable f"
    using Cons.prems(1) by simp
  show ?case
  proof (cases "uploadedSha r")
    case None
    then obtain e where e: "res = Inl e" using out by auto
    let ?w3 = "warn (''Failed to upload '' @ path f) w2"
    have "replies ?w3 = rs @ rest" using rep2 by (simp add: sent_simps)
    from Cons.IH [OF rest_ok len this, of "processed + 1" items]
    show ?thesis using ns up e None frs by (simp add: Let_def)
  next
    case (Some v)
    then have r: "res = Inr (blobItem (path f) v)" using out by simp
    from Cons.IH [OF rest_ok len rep2, of "processed + 1" "items @ [blobItem (path f) v]"]
    show ?thesis using ns up r Some frs by (simp add: Let_def)
  qed
qed

lemma uploadFile_replies:
  "uploadFile token owner repo f w = (res, w') \<Longrightarrow>
   replies w' = replies w \<or> replies w' = tl (replies w)"
  by (auto simp: uploadFile_def createBlob_def sent_simps
      split: sum.splits prod.splits reply.splits if_splits)

lemma uploadFiles_replies:
  "uploadFiles floor40 token owner repo totalFiles files processed items w = (items', w') \<Longrightarrow>
   \<exists>k\<le>length files. replies w' = drop k (replies w)"
proof (induction files arbitrary: processed items w)
  case Nil
  then show ?case by simp
next
  case (Cons f fs)
  show ?case
  proof (cases "skipped f")
    case True
    then have "uploadFiles floor40 token owner repo totalFiles fs processed items w = (items', w')"
      using Cons.prems by simp
    from Cons.IH [OF this] obtain k where "k \<le> length fs" "replies w' = drop k (replies w)"
      by auto
    then show ?thesis by (intro exI [of _ k]) simp
  next
    case False
    let ?w1 = "onProgress (30 + floor40 (processed + 1) totalFiles)
                 (''Uploading '' @ path f @ ''...'') w"
    obtain r w2 where up: "uploadFile token owner repo f ?w1 = (r, w2)"
      by (cases "uploadFile token owner repo f ?w1") auto
    have "replies w2 = replies w \<or> replies w2 = tl (replies w)"
      using uploadFile_replies [OF up] by (simp add: sent_simps)
    then have "\<exists>j\<le>1. replies w2 = drop j (replies w)"
    proof
      assume "replies w2 = replies w"
      then have "0 \<le> (1::nat) \<and> replies w2 = drop 0 (replies w)" by simp
      then show ?thesis by blast
    next
      assume "replies w2 = tl (replies w)"
      then have "1 \<le> (1::nat) \<and> replies w2 = drop 1 (replies w)" by (simp add: drop_Suc)
      then show ?thesis by blast
    qed
    then obtain j where j: "j \<le> 1" "replies w2 = drop j (replies w)"
      by auto
    have "\<exists>w3 its. replies w3 = replies w2
            \<and> uploadFiles floor40 token owner repo totalFiles fs (Suc processed) its w3
                = (items', w')"
    proof (cases r)
      case (Inl e)
      have "uploadFiles floor40 token owner repo totalFiles fs (Suc processed) items
              (warn (''Failed to upload '' @ path f) w2) = (items', w')"
        using Cons.prems False up Inl by (simp add: Let_def)
      moreover have "replies (warn (''Failed to upload '' @ path f) w2) = replies w2"
        by (simp add: sent_simps)
      ultimately show ?thesis by blast
    next
      case (Inr item)
      have "uploadFiles floor40 token owner repo totalFiles fs (Suc processed) (items @ [item])
              w2 = (items', w')"
        using Cons.prems False up Inr by (simp add: Let_def)
      then show ?thesis by blast
    qed
    then obtain w3 its where w3: "replies w3 = replies w2"
      and run: "uploadFiles floor40 token owner repo totalFiles fs (Suc processed) its w3
                  = (items', w')"
      by blast
    obtain k where k: "k \<le> length fs" "replies w' = drop k (replies w3)"
      using Cons.IH [OF run] by auto
    have "replies w' = drop (k + j) (replies w)"
      using k j w3 by simp
    moreover have "k + j \<le> length (f # fs)"
      using k j by simp
    ultimately show ?thesis by blast
  qed
qed

lemma createTree_good:
  assumes "replies w = t # c # u # rest" and "goodReply t" and "goodReply c" and "goodReply u"
  shows "\<exists>w' s. createTree token owner repo message bt pc items w = (Inr (), w')
          \<and> treesSent (events w') = treesSent (events w) @ [(bt, items)]
          \<and> commitsSent (events w') = commitsSent (events w) @ [(message, s, parentsOf pc)]"
proof -
  obtain st kt where t: "t = Response st (Some (JObject kt))" "ok st"
    using assms(2) by (rule goodReply_cases)
  obtain sc kc where c: "c = Response sc (Some (JObject kc))" "ok sc"
    using assms(3) by (rule goodReply_cases)
  obtain su ku where u: "u = Response su (Some (JObject ku))" "ok su"
    using assms(4) by (rule goodReply_cases)
  show ?thesis
    using assms(1) t c u
    by (simp add: createTree_def createCommit_def updateRef_def jsonOf_def Let_def
        nextReply_def sent_simps)
qed

lemma resolveBase_resolved:
  assumes "resolved pre = Some (bt, pc)" and "replies w = pre @ rest"
  shows "\<exists>w'. resolveBase token owner repo w = (Inr (bt, pc), w') \<and> replies w' = rest
           \<and> sameSent w w'"
proof (cases pre rule: resolved.cases)
  case (1 status b)
  then show ?thesis
    using assms
    by (auto simp: resolveBase_def nextReply_def sameSent_def sent_simps split: if_splits)
next
  case (2 status refData status2 commitData)
  then show ?thesis
    using assms
    by (auto simp: resolveBase_def nextReply_def sameSent_def sent_simps jsonOf_def
        split: if_splits sum.splits)
qed (use assms in auto)

lemma uploadAll_good:
  assumes "replies w = a1 # a2 # rest" and "goodReply a1" and "goodReply a2"
  shows "\<exists>s1 s2 w2 items w'.
           uploadFiles floor40 token owner repo (length files) files 0
             [blobItem ''Dockerfile'' s1, blobItem ''docker-compose.yaml'' s2] w2 = (items, w')
           \<and> replies w2 = rest
           \<and> uploadAll floor40 token owner repo files dockerfileText composeText w
               = (Inr items, w')"
proof -
  let ?w0 = "onProgress 20 ''Uploading Dockerfile...'' w"
  have "replies ?w0 = a1 # a2 # rest"
    using assms(1) by (simp add: sent_simps)
  from uploadArtifact_good [OF this assms(2), of token owner repo "''Dockerfile''" dockerfileText]
  obtain s1 w1 where
    a1: "uploadArtifact token owner repo ''Dockerfile'' dockerfileText ?w0
           = (Inr (blobItem ''Dockerfile'' s1), w1)"
    and r1: "replies w1 = a2 # rest"
    by blast
  let ?w1 = "onProgress 25 ''Uploading docker-compose.yaml...'' w1"
  have "replies ?w1 = a2 # rest"
    using r1 by (simp add: sent_simps)
  from uploadArtifact_good [OF this assms(3), of token owner repo "''docker-compose.yaml''"
      composeText]
  obtain s2 w2 where
    a2: "uploadArtifact token owner repo ''docker-compose.yaml'' composeText ?w1
           = (Inr (blobItem ''docker-compose.yaml'' s2), w2)"
    and r2: "replies w2 = rest"
    by blast
  obtain items w' where
    fs: "uploadFiles floor40 token owner repo (length files) files 0
           [blobItem ''Dockerfile'' s1, blobItem ''docker-compose.yaml'' s2] w2 = (items, w')"
    by (cases "uploadFiles floor40 token owner repo (length files) files 0
           [blobItem ''Dockerfile'' s1, blobItem ''docker-compose.yaml'' s2] w2") auto
  have "uploadAll floor40 token owner repo files dockerfileText composeText w = (Inr items, w')"
    using a1 a2 fs by (simp add: uploadAll_def)
  then show ?thesis using fs r2 by blast
qed

lemma pushFilesToRepo_steps:
  assumes "resolveBase token owner repo (onProgress 10 ''Getting repo info...'' w0)
             = (Inr (bt, pc), w1)"
    and "uploadAll floor40 token owner repo files dockerfileText composeText w1 = (Inr items, w2)"
  shows "pushFilesToRepo floor40 token owner repo files dockerfileText composeText message w0
           = createTree token owner repo message bt pc items w2"
  using assms by (simp add: pushFilesToRepo_def)

lemma parentsOf_null: "parentsOf (Some JNull) = None"
  by (simp add: parentsOf_def)

lemma drop_tail3:
  assumes "k + 3 \<le> length xs"
  obtains t c u rest where "drop k xs = t # c # u # rest"
proof -
  have "3 \<le> length (drop k xs)" using assms by simp
  then obtain t ys where 1: "drop k xs = t # ys" and "2 \<le> length ys"
    by (cases "drop k xs") auto
  then obtain c zs where 2: "ys = c # zs" and "1 \<le> length zs"
    by (cases ys) auto
  then obtain u rest where 3: "zs = u # rest"
    by (cases zs) auto
  show ?thesis using 1 2 3 that by simp
qed

lemma grows_refl: "grows w w"
  by (simp add: grows_def)

lemma grows_trans: "grows w w1 \<Longrightarrow> grows w1 w2 \<Longrightarrow> grows w w2"
  by (auto simp: grows_def)

lemma grows_step:
  "grows w (onProgress p m w)" "grows w (warn t w)" "grows w (asked req w)"
  by (simp_all add: grows_def sent_simps)

lemma grows_createBlob:
  "createBlob token owner repo c enc w = (res, w') \<Longrightarrow> grows w w'"
  by (auto simp: createBlob_def grows_def sent_simps split: reply.splits if_splits)

lemma grows_uploadFile:
  "uploadFile token owner repo f w = (res, w') \<Longrightarrow> grows w w'"
  by (auto simp: uploadFile_def grows_refl split: sum.splits prod.splits
      dest: grows_createBlob)

lemma grows_uploadFiles:
  "uploadFiles floor40 token owner repo totalFiles files processed items w = (items', w') \<Longrightarrow>
   grows w w'"
proof (induction files arbitrary: processed items w)
  case Nil
  then show ?case by (simp add: grows_refl)
next
  case (Cons f fs)
  show ?case
  proof (cases "skipped f")
    case True
    then show ?thesis using Cons by simp
  next
    case False
    let ?w1 = "onProgress (30 + floor40 (processed + 1) totalFiles)
                 (''Uploading '' @ path f @ ''...'') w"
    obtain r w2 where up: "uploadFile token owner repo f ?w1 = (r, w2)"
      by (cases "uploadFile token owner repo f ?w1") auto
    have g2: "grows w w2"
      using grows_step(1) grows_uploadFile [OF up] by (rule grows_trans)
    show ?thesis
    proof (cases r)
      case (Inl e)
      have "grows w (warn (''Failed to upload '' @ path f) w2)"
        using g2 grows_step(2) by (rule grows_trans)
      moreover have "grows (warn (''Failed to upload '' @ path f) w2) w'"
        using Cons.prems False up Inl
          Cons.IH [of "processed + 1" items "warn (''Failed to upload '' @ path f) w2"]
        by (simp add: Let_def)
      ultimately show ?thesis by (rule grows_trans)
    next
      case (Inr item)
      then have "grows w2 w'"
        using Cons.prems False up Cons.IH [of "processed + 1" "items @ [item]" w2]
        by (simp add: Let_def)
      with g2 show ?thesis by (rule grows_trans)
    qed
  qed
qed

lemma grows_updateRef:
  "updateRef token owner repo d w = (res, w') \<Longrightarrow> grows w w'"
  by (auto simp: updateRef_def grows_def sent_simps Let_def
      split: sum.splits reply.splits if_splits)

lemma grows_createCommit:
  assumes "createCommit token owner repo message pc treeData w = (res, w')"
  shows "grows w w'"
proof -
  let ?w1 = "onProgress 90 ''Committing changes...'' w"
  have "w' = ?w1 \<or> (\<exists>req. w' = asked req ?w1)
        \<or> (\<exists>req d. updateRef token owner repo d (asked req ?w1) = (res, w'))"
    using assms
    by (auto simp: createCommit_def fetch_eq Let_def jsonOf_def
        split: sum.splits reply.splits if_splits option.splits)
  then show ?thesis
    by (auto intro: grows_step grows_trans [OF grows_step(1) grows_step(3)]
        grows_trans [OF grows_trans [OF grows_step(1) grows_step(3)] grows_updateRef])
qed

lemma grows_createTree:
  assumes "createTree token owner repo message bt pc items w = (res, w')"
  shows "grows w w'"
proof -
  let ?w1 = "onProgress 80 ''Creating file tree...'' w"
  have "(\<exists>req. w' = asked req ?w1)
        \<or> (\<exists>req d. createCommit token owner repo message pc d (asked req ?w1) = (res, w'))"
    using assms
    by (auto simp: createTree_def fetch_eq Let_def jsonOf_def
        split: reply.splits if_splits option.splits)
  then show ?thesis
    by (auto intro: grows_trans [OF grows_step(1) grows_step(3)]
        grows_trans [OF grows_trans [OF grows_step(1) grows_step(3)] grows_createCommit])
qed

lemma uploadArtifact_first:
  assumes "uploadArtifact token owner repo name text w = (res, w')"
  shows "events w' = events w @ [Fetch (blobRequest token owner repo (Some text) Utf8) (nextReply w)]"
  using assms
  by (auto simp: uploadArtifact_def createBlob_def blobRequest_def sent_simps
      split: sum.splits prod.splits reply.splits if_splits)

lemma uploadAll_first:
  assumes "uploadAll floor40 token owner repo files dockerfileText composeText w = (res, w')"
  shows "\<exists>es. events w' = events w @ Progress 20 ''Uploading Dockerfile...''
           # Fetch (blobRequest token owner repo (Some dockerfileText) Utf8) (nextReply w) # es"
proof -
  let ?w0 = "onProgress 20 ''Uploading Dockerfile...'' w"
  obtain r1 w1 where a1: "uploadArtifact token owner repo ''Dockerfile'' dockerfileText ?w0 = (r1, w1)"
    by (cases "uploadArtifact token owner repo ''Dockerfile'' dockerfileText ?w0") auto
  have e1: "events w1 = events w @ [Progress 20 ''Uploading Dockerfile...'',
              Fetch (blobRequest token owner repo (Some dockerfileText) Utf8) (nextReply w)]"
    using uploadArtifact_first [OF a1] by (simp add: sent_simps nextReply_def)
  show ?thesis
  proof (cases r1)
    case (Inl e)
    then show ?thesis using assms a1 e1 by (auto simp: uploadAll_def)
  next
    case (Inr dockerItem)
    let ?w1 = "onProgress 25 ''Uploading docker-compose.yaml...'' w1"
    obtain r2 w2 where
      a2: "uploadArtifact token owner repo ''docker-compose.yaml'' composeText ?w1 = (r2, w2)"
      by (cases "uploadArtifact token owner repo ''docker-compose.yaml'' composeText ?w1") auto
    have g2: "grows w1 w2"
      using uploadArtifact_first [OF a2] by (simp add: grows_def sent_simps)
    have "grows w1 w'"
    proof (cases r2)
      case (Inl e)
      then show ?thesis
        using assms a1 a2 g2 \<open>r1 = Inr dockerItem\<close> by (auto simp: uploadAll_def)
    next
      case (Inr composeItem)
      obtain items w3 where
        fs: "uploadFiles floor40 token owner repo (length files) files 0
               [dockerItem, composeItem] w2 = (items, w3)"
        by (cases "uploadFiles floor40 token owner repo (length files) files 0
               [dockerItem, composeItem] w2") auto
      have "w' = w3"
        using assms a1 a2 fs Inr \<open>r1 = Inr dockerItem\<close> by (simp add: uploadAll_def)
      then show ?thesis
        using g2 grows_uploadFiles [OF fs] grows_trans by blast
    qed
    then show ?thesis
      using e1 by (auto simp: grows_def)
  qed
qed

lemma getProp_error: "getProp v f = Inl e \<Longrightarrow> e = TypeError"
  by (cases "(v, f)" rule: getProp.cases) auto

lemma resolveBase_error:
  assumes "resolveBase token owner repo w = (Inl e, w')"
  shows "(e = NetworkError \<or> e = SyntaxError \<or> e = TypeError)
         \<and> length (requestsOf (events w')) \<le> length (requestsOf (events w)) + 2"
  using assms
  by (auto simp: resolveBase_def jsonOf_def sent_simps requestsOf_append
      split: reply.splits if_splits sum.splits option.splits dest: getProp_error)

lemma uploadedItems_paths:
  "map t_path (uploadedItems fs rs)
     = map (path \<circ> fst) (filter (\<lambda>(f, r). uploadedSha r \<noteq> None) (zip fs rs))"
  by (induction fs rs rule: uploadedItems.induct) (auto simp: blobItem_def split: option.splits)

lemma uploadedItems_length:
  "length rs = length fs \<Longrightarrow>
   length (uploadedItems fs rs) = length (filter (\<lambda>r. uploadedSha r \<noteq> None) rs)"
  by (induction fs rs rule: uploadedItems.induct) (auto split: option.splits)






lemma getIn_error: "getIn v fs = Inl e \<Longrightarrow> e = TypeError"
proof (induction fs arbitrary: v)
  case Nil
  then show ?case by simp
next
  case (Cons f fs)
  show ?case
  proof (cases "getProp v f")
    case (Inl e')
    then have "e' = TypeError" by (rule getProp_error)
    then show ?thesis using Cons.prems Inl by simp
  next
    case (Inr u)
    then show ?thesis using Cons by simp
  qed
qed

lemma resolveBase_throws:
  "(fst (resolveBase token owner repo w) = Inl e) = (resolutionError (replies w) = Some e)"
proof (cases "replies w")
  case Nil
  then show ?thesis
    by (auto simp: resolveBase_def fetch_eq nextReply_def)
next
  case (Cons r rs)
  note rw = Cons
  show ?thesis
  proof (cases r)
    case Rejected
    then show ?thesis using rw
      by (auto simp: resolveBase_def fetch_eq nextReply_def)
  next
    case (Response status b)
    show ?thesis
    proof (cases "ok status")
      case False
      then show ?thesis using rw Response
        by (simp add: resolveBase_def fetch_eq nextReply_def)
    next
      case True
      show ?thesis
      proof (cases b)
        case None
        then show ?thesis using rw Response True
          by (auto simp: resolveBase_def fetch_eq nextReply_def jsonOf_def)
      next
        case (Some refData)
        show ?thesis
        proof (cases "getIn (Some refData) [''object'', ''sha'']")
          case (Inl e')
          then have "e' = TypeError" by (rule getIn_error)
          then show ?thesis using rw Response True Some Inl
            by (auto simp: resolveBase_def fetch_eq nextReply_def jsonOf_def
                simp del: getIn.simps)
        next
          case (Inr pc)
          have n2: "nextReply (asked req w) = (case rs of [] \<Rightarrow> Rejected | x # xs \<Rightarrow> x)"
            for req
            using rw by (simp add: nextReply_def asked_def)
          show ?thesis
          proof (cases rs)
            case Nil
            then show ?thesis using rw Response True Some Inr n2
              by (auto simp: resolveBase_def fetch_eq nextReply_def jsonOf_def
                  simp del: getIn.simps)
          next
            case (Cons r2 rest)
            show ?thesis
            proof (cases r2)
              case Rejected
              then show ?thesis using rw Response True Some Inr n2 Cons
                by (auto simp: resolveBase_def fetch_eq nextReply_def jsonOf_def
                    simp del: getIn.simps)
            next
              case (Response status2 b2)
              show ?thesis
              proof (cases b2)
                case None
                then show ?thesis
                  using rw \<open>r = Response status b\<close> True Some Inr n2 Cons Response
                  by (auto simp: resolveBase_def fetch_eq nextReply_def jsonOf_def
                      simp del: getIn.simps)
              next
                case (Some commitData)
                show ?thesis
                proof (cases "getIn (Some commitData) [''tree'', ''sha'']")
                  case (Inl e')
                  then have "e' = TypeError" by (rule getIn_error)
                  then show ?thesis
                    using rw \<open>r = Response status b\<close> True \<open>b = Some refData\<close> Inr n2 Cons
                      Response Some Inl
                    by (auto simp: resolveBase_def fetch_eq nextReply_def jsonOf_def
                        simp del: getIn.simps)
                next
                  case (Inr bt)
                  then show ?thesis
                    using rw \<open>r = Response status b\<close> True \<open>b = Some refData\<close>
                      \<open>getIn (Some refData) [''object'', ''sha''] = Inr pc\<close> n2 Cons Response Some
                    by (auto simp: resolveBase_def fetch_eq nextReply_def jsonOf_def
                        simp del: getIn.simps)
                qed
              qed
            qed
          qed
        qed
      qed
    qed
  qed
qed

section \<open>The compose file and the merge: auxiliary facts\<close>

lemma findIndex_Cons_Suc:
  "(findIndex P (x # xs) = 1 + int i) = (\<not> P x \<and> findIndex P xs = int i)"
  using findIndex_range [of P xs] by (auto simp: Let_def)

lemma uniqueEnvs_Cons:
  "uniqueEnvs (x # xs) = x # filter (\<lambda>v. key v \<noteq> key x) (uniqueEnvs xs)"
proof -
  have "filter (\<lambda>(i, v). findIndex (\<lambda>t. key t = key v) (x # xs) = int i)
          (enumerate (Suc 0) xs)
        = map (apfst Suc)
            (filter (\<lambda>(i, v). key v \<noteq> key x \<and> findIndex (\<lambda>t. key t = key v) xs = int i)
               (enumerate 0 xs))"
    unfolding enumerate_Suc_eq filter_map
    by (rule arg_cong [where f = "map (apfst Suc)"], rule filter_cong)
       (auto simp: findIndex_Cons_Suc simp del: findIndex.simps)
  moreover have "map snd (filter (\<lambda>(i, v). key v \<noteq> key x \<and> Q i v) ys)
        = filter (\<lambda>v. key v \<noteq> key x) (map snd (filter (\<lambda>(i, v). Q i v) ys))"
    for Q :: "nat \<Rightarrow> EnvVarSuggestion \<Rightarrow> bool" and ys
    by (induction ys) auto
  ultimately show ?thesis
    by (simp add: uniqueEnvs_def comp_def)
qed

lemma uniqueEnvs_Nil: "uniqueEnvs [] = []"
  by (simp add: uniqueEnvs_def)

lemma uniqueEnvs_keys: "map key (uniqueEnvs vars) = firstOccurrences (map key vars)"
proof (induction vars)
  case Nil
  show ?case by (simp add: uniqueEnvs_Nil)
next
  case (Cons x xs)
  have h: "map key (filter (\<lambda>v. key v \<noteq> key x) ys) = filter (\<lambda>k. k \<noteq> key x) (map key ys)"
    for ys
    by (induction ys) auto
  show ?case by (simp add: uniqueEnvs_Cons h Cons)
qed

lemma firstOccurrences_set: "set (firstOccurrences ks) = set ks"
  by (induction ks) auto

lemma firstOccurrences_distinct: "distinct (firstOccurrences ks)"
  by (induction ks) (auto simp: firstOccurrences_set)

lemma uniqueEnvs_first:
  "v \<in> set (uniqueEnvs vars) \<Longrightarrow> find (\<lambda>t. key t = key v) vars = Some v"
proof (induction vars)
  case Nil
  then show ?case by (simp add: uniqueEnvs_Nil)
next
  case (Cons x xs)
  then show ?case by (auto simp: uniqueEnvs_Cons)
qed

lemma joinStr_nonempty: "l \<noteq> [] \<Longrightarrow> joinStr sep (l # ls) \<noteq> []"
  by (cases ls) auto

lemma envBlock_keys:
  "envBlock vars
     = joinStr [LF] (map (\<lambda>k. ''      - '' @ k @ ''=${'' @ k @ ''}'')
                       (firstOccurrences (map key vars)))"
proof -
  have "map composeLine ys = map (\<lambda>k. ''      - '' @ k @ ''=${'' @ k @ ''}'') (map key ys)" for ys
    by (simp add: composeLine_def)
  then show ?thesis
    by (simp add: envBlock_def uniqueEnvs_keys del: map_map)
qed

lemma envBlock_nonempty:
  assumes "vars \<noteq> []"
  shows "envBlock vars \<noteq> []"
proof -
  obtain x xs where "vars = x # xs"
    using assms by (cases vars) auto
  then have "envBlock vars = joinStr [LF] (composeLine x # map composeLine
               (filter (\<lambda>v. key v \<noteq> key x) (uniqueEnvs xs)))"
    by (simp add: envBlock_def uniqueEnvs_Cons)
  moreover have "composeLine x \<noteq> []"
    by (simp add: composeLine_def)
  ultimately show ?thesis
    by (simp add: joinStr_nonempty)
qed

lemma envBlock_lines:
  assumes "\<forall>v\<in>set vars. LF \<notin> set (key v)" and "vars \<noteq> []"
  shows "splitStr LF (envBlock vars)
           = map (\<lambda>k. ''      - '' @ k @ ''=${'' @ k @ ''}'') (firstOccurrences (map key vars))"
proof -
  let ?ls = "map (\<lambda>k. ''      - '' @ k @ ''=${'' @ k @ ''}'') (firstOccurrences (map key vars))"
  have ne: "?ls \<noteq> []"
    using assms(2) by (cases vars) auto
  have no: "\<forall>l\<in>set ?ls. LF \<notin> set l"
    using assms(1) by (auto simp: firstOccurrences_set LF_def)
  show ?thesis
    using splitStr_joinStr [OF ne no] by (simp only: envBlock_keys)
qed

lemma set_insertBy: "set (insertBy cmp x ys) = insert x (set ys)"
  by (induction ys) auto

lemma set_sortBy: "set (sortBy cmp xs) = set xs"
  by (induction xs) (auto simp: sortBy_def set_insertBy)

lemma length_insertBy: "length (insertBy cmp x ys) = Suc (length ys)"
  by (induction ys) auto

lemma length_sortBy: "length (sortBy cmp xs) = length xs"
  by (induction xs) (auto simp: sortBy_def length_insertBy)

lemma findIndex_find_Some:
  "find P xs = Some e \<Longrightarrow> \<exists>i. findIndex P xs = int i \<and> i < length xs \<and> xs ! i = e"
proof (induction xs)
  case Nil
  then show ?case by simp
next
  case (Cons x xs)
  show ?case
  proof (cases "P x")
    case True
    then show ?thesis using Cons.prems by (intro exI [of _ 0]) simp
  next
    case False
    then obtain i where "findIndex P xs = int i" "i < length xs" "xs ! i = e"
      using Cons by auto
    then show ?thesis using False by (intro exI [of _ "Suc i"]) (simp add: Let_def)
  qed
qed

lemma findIndex_found:
  "findIndex P xs \<noteq> - 1 \<Longrightarrow> nat (findIndex P xs) < length xs \<and> P (xs ! nat (findIndex P xs))"
proof (induction xs)
  case Nil
  then show ?case by simp
next
  case (Cons x xs)
  show ?case
  proof (cases "P x")
    case True
    then show ?thesis by simp
  next
    case False
    have r: "- 1 \<le> findIndex P xs" using findIndex_range [of P xs] by simp
    have ne: "findIndex P xs \<noteq> - 1" using Cons.prems False by (simp add: Let_def split: if_splits)
    then have "0 \<le> findIndex P xs" using r by linarith
    then have "nat (findIndex P xs + 1) = Suc (nat (findIndex P xs))" by simp
    then show ?thesis using False ne Cons.IH [OF ne] by (simp add: Let_def)
  qed
qed

lemma find_update_other:
  "i < length xs \<Longrightarrow> \<not> P (xs ! i) \<Longrightarrow> \<not> P y \<Longrightarrow> find P (xs[i := y]) = find P xs"
proof (induction xs arbitrary: i)
  case Nil
  then show ?case by simp
next
  case (Cons x xs)
  then show ?case by (cases i) auto
qed

lemma in_set_update_other:
  assumes "e \<in> set xs" and "e \<noteq> xs ! i"
  shows "e \<in> set (xs[i := y])"
proof -
  obtain j where j: "j < length xs" "xs ! j = e"
    using assms(1) by (auto simp: in_set_conv_nth)
  then have "j \<noteq> i" using assms(2) by auto
  then have "xs[i := y] ! j = e" using j by simp
  then show ?thesis using j by (metis length_list_update nth_mem)
qed

lemma mergeStdVar_keeps_key:
  "e \<in> set xs \<Longrightarrow> key e \<noteq> key s \<Longrightarrow> e \<in> set (mergeStdVar K xs s)"
proof -
  assume e: "e \<in> set xs" and k: "key e \<noteq> key s"
  let ?idx = "findIndex (\<lambda>v. key v = key s) xs"
  have "e \<in> set (xs[nat ?idx := y])" if "?idx \<noteq> - 1" for y
  proof -
    have "key (xs ! nat ?idx) = key s"
      using findIndex_found [OF that] by simp
    then have "e \<noteq> xs ! nat ?idx" using k by auto
    with e show ?thesis by (rule in_set_update_other)
  qed
  then show ?thesis using e by (simp add: mergeStdVar_def Let_def)
qed

lemma mergeStdVar_keeps_value:
  "e \<in> set xs \<Longrightarrow> \<not> falsy (val e) \<Longrightarrow> e \<in> set (mergeStdVar K xs s)"
proof -
  assume e: "e \<in> set xs" and v: "\<not> falsy (val e)"
  let ?idx = "findIndex (\<lambda>v. key v = key s) xs"
  have "e \<in> set (xs[nat ?idx := y])" if "falsy (val (xs ! nat ?idx))" for y
  proof -
    have "e \<noteq> xs ! nat ?idx" using v that by auto
    with e show ?thesis by (rule in_set_update_other)
  qed
  then show ?thesis using e by (simp add: mergeStdVar_def Let_def)
qed

lemma mergeStdVar_appends: "key s \<notin> K \<Longrightarrow> s \<in> set (mergeStdVar K xs s)"
  by (simp add: mergeStdVar_def)

lemma find_append_other: "\<not> P y \<Longrightarrow> find P (xs @ [y]) = find P xs"
  by (induction xs) auto

lemma mergeStdVar_find_other:
  assumes "k \<noteq> key s"
  shows "find (\<lambda>v. key v = k) (mergeStdVar K xs s) = find (\<lambda>v. key v = k) xs"
proof -
  let ?idx = "findIndex (\<lambda>v. key v = key s) xs"
  have "find (\<lambda>v. key v = k) (xs[nat ?idx := (xs ! nat ?idx)\<lparr>val := y\<rparr>])
          = find (\<lambda>v. key v = k) xs" if "?idx \<noteq> - 1" for y
  proof -
    have i: "nat ?idx < length xs" and ks: "key (xs ! nat ?idx) = key s"
      using findIndex_found [OF that] by simp_all
    show ?thesis
      using i ks assms by (intro find_update_other) auto
  qed
  then show ?thesis
    using assms by (simp add: mergeStdVar_def Let_def find_append_other)
qed

lemma mergeStdVar_backfills:
  assumes "key s \<in> K" and "find (\<lambda>v. key v = key s) xs = Some e"
  shows "(if falsy (val e) \<and> \<not> falsy (val s) then e\<lparr>val := val s\<rparr> else e)
           \<in> set (mergeStdVar K xs s)"
proof -
  obtain i where i: "findIndex (\<lambda>v. key v = key s) xs = int i" "i < length xs" "xs ! i = e"
    using findIndex_find_Some [OF assms(2)] by blast
  have "e \<in> set xs" using i by auto
  moreover have "e\<lparr>val := val s\<rparr> \<in> set (xs[i := e\<lparr>val := val s\<rparr>])"
    using i by (simp add: set_update_memI)
  ultimately show ?thesis
    using assms(1) i by (simp add: mergeStdVar_def Let_def)
qed

lemma mergeStdVar_length:
  "length (mergeStdVar K xs s) = length xs + (if key s \<notin> K then 1 else 0)"
  by (simp add: mergeStdVar_def Let_def)

lemma fold_keeps_key:
  "e \<in> set xs \<Longrightarrow> key e \<notin> key ` set stds \<Longrightarrow> e \<in> set (foldl (mergeStdVar K) xs stds)"
  by (induction stds arbitrary: xs) (auto simp: mergeStdVar_keeps_key)

lemma fold_keeps_value:
  "e \<in> set xs \<Longrightarrow> \<not> falsy (val e) \<Longrightarrow> e \<in> set (foldl (mergeStdVar K) xs stds)"
  by (induction stds arbitrary: xs) (auto simp: mergeStdVar_keeps_value)

lemma fold_find_other:
  "k \<notin> key ` set stds \<Longrightarrow>
   find (\<lambda>v. key v = k) (foldl (mergeStdVar K) xs stds) = find (\<lambda>v. key v = k) xs"
  by (induction stds arbitrary: xs) (auto simp: mergeStdVar_find_other)

lemma fold_appends:
  "s \<in> set stds \<Longrightarrow> distinct (map key stds) \<Longrightarrow> key s \<notin> K \<Longrightarrow>
   s \<in> set (foldl (mergeStdVar K) xs stds)"
proof (induction stds arbitrary: xs)
  case Nil
  then show ?case by simp
next
  case (Cons t ts)
  show ?case
  proof (cases "s = t")
    case True
    have "s \<in> set (mergeStdVar K xs s)"
      using Cons.prems(3) by (rule mergeStdVar_appends)
    moreover have "key s \<notin> key ` set ts"
      using Cons.prems(2) True by auto
    ultimately show ?thesis
      using True by (simp add: fold_keeps_key)
  next
    case False
    then show ?thesis using Cons by auto
  qed
qed

lemma fold_backfills:
  "s \<in> set stds \<Longrightarrow> distinct (map key stds) \<Longrightarrow> key s \<in> K \<Longrightarrow>
   find (\<lambda>v. key v = key s) xs = Some e \<Longrightarrow>
   (if falsy (val e) \<and> \<not> falsy (val s) then e\<lparr>val := val s\<rparr> else e)
     \<in> set (foldl (mergeStdVar K) xs stds)"
proof (induction stds arbitrary: xs)
  case Nil
  then show ?case by simp
next
  case (Cons t ts)
  let ?e' = "if falsy (val e) \<and> \<not> falsy (val s) then e\<lparr>val := val s\<rparr> else e"
  show ?case
  proof (cases "s = t")
    case True
    have "?e' \<in> set (mergeStdVar K xs s)"
      using Cons.prems(3) Cons.prems(4) by (rule mergeStdVar_backfills)
    moreover have "key e = key s"
      using Cons.prems(4) by (auto dest: find_Some_iff [THEN iffD1])
    moreover have "key s \<notin> key ` set ts"
      using Cons.prems(2) True by auto
    ultimately have "?e' \<in> set (foldl (mergeStdVar K) (mergeStdVar K xs s) ts)"
      by (intro fold_keeps_key) auto
    then show ?thesis using True by simp
  next
    case False
    then have "s \<in> set ts" using Cons.prems(1) by simp
    moreover have "key s \<noteq> key t"
    proof
      assume "key s = key t"
      then have "key t \<in> key ` set ts" using \<open>s \<in> set ts\<close> by (metis imageI)
      then show False using Cons.prems(2) by simp
    qed
    then have "find (\<lambda>v. key v = key s) (mergeStdVar K xs t) = Some e"
      using Cons.prems(4) by (simp add: mergeStdVar_find_other)
    ultimately show ?thesis
      using Cons.IH [of "mergeStdVar K xs t"] Cons.prems(2) Cons.prems(3) by simp
  qed
qed

lemma fold_length:
  "length (foldl (mergeStdVar K) xs stds)
     = length xs + length (filter (\<lambda>s. key s \<notin> K) stds)"
  by (induction stds arbitrary: xs) (auto simp: mergeStdVar_length)

lemma STANDARD_distinct: "distinct (map key STANDARD_LLM_VARS)"
  by code_simp

lemma envVars_mergeOnMount:
  "envVars (mergeOnMount localeCompare prev)
     = sortBy (compareEnv localeCompare) (mergedVars (envVars prev))"
  by (simp add: mergeOnMount_def Let_def)

lemma merged_scenario:
  "mergedVars [\<lparr>key = ''OPENROUTER_API_KEY'', description = d, defaultValue = dv, val = Some ''x''\<rparr>]
     = \<lparr>key = ''OPENROUTER_API_KEY'', description = d, defaultValue = dv, val = Some ''x''\<rparr>
       # [STANDARD_LLM_VARS ! 0, STANDARD_LLM_VARS ! 2, STANDARD_LLM_VARS ! 3,
          STANDARD_LLM_VARS ! 4, STANDARD_LLM_VARS ! 5]"
  by (simp add: mergedVars_def mergeStdVar_def STANDARD_LLM_VARS_def falsy_def Let_def)

lemma sorted_scenario:
  "sortBy (compareEnv localeCompare)
     (\<lparr>key = ''OPENROUTER_API_KEY'', description = d, defaultValue = dv, val = Some ''x''\<rparr>
       # [STANDARD_LLM_VARS ! 0, STANDARD_LLM_VARS ! 2, STANDARD_LLM_VARS ! 3,
          STANDARD_LLM_VARS ! 4, STANDARD_LLM_VARS ! 5])
   = [STANDARD_LLM_VARS ! 5, STANDARD_LLM_VARS ! 0,
      \<lparr>key = ''OPENROUTER_API_KEY'', description = d, defaultValue = dv, val = Some ''x''\<rparr>,
      STANDARD_LLM_VARS ! 2, STANDARD_LLM_VARS ! 3, STANDARD_LLM_VARS ! 4]"
  by (simp add: sortBy_def compareEnv_def indexOf_def priority_def STANDARD_LLM_VARS_def Let_def)

lemma scenario_pairs:
  "map (\<lambda>v. (key v, val v))
     [STANDARD_LLM_VARS ! 5, STANDARD_LLM_VARS ! 0,
      \<lparr>key = ''OPENROUTER_API_KEY'', description = d, defaultValue = dv, val = Some ''x''\<rparr>,
      STANDARD_LLM_VARS ! 2, STANDARD_LLM_VARS ! 3, STANDARD_LLM_VARS ! 4]
   = [(''HOST'', Some ''0.0.0.0''), (''LLM_PROVIDER'', Some ''openrouter''),
      (''OPENROUTER_API_KEY'', Some ''x''), (''GOOGLE_API_KEY'', Some ''''),
      (''BASE_URL'', Some ''https://openrouter.ai/api/v1''),
      (''MODEL_NAME'', Some ''meta-llama/llama-3.1-8b-instruct'')]"
  by (simp add: STANDARD_LLM_VARS_def)

lemma findIndex_none: "(findIndex P xs = - 1) = (\<forall>x\<in>set xs. \<not> P x)"
proof (induction xs)
  case Nil
  show ?case by simp
next
  case (Cons x xs)
  have "findIndex P xs + 1 \<noteq> - 1"
    using findIndex_range [of P xs] by linarith
  then show ?case using Cons by (simp add: Let_def)
qed

lemma indexOf_priority: "(indexOf priority k \<noteq> - 1) = (k \<in> set priority)"
  by (auto simp: indexOf_def findIndex_none)

lemma compareEnv_cases:
  "compareEnv lc a b =
     (if inPriority a \<and> inPriority b then indexOf priority (key a) - indexOf priority (key b)
      else if inPriority a then - 1
      else if inPriority b then 1
      else lc (key a) (key b))"
  by (simp add: compareEnv_def Let_def inPriority_def indexOf_priority)

lemma compareEnv_total:
  assumes "consistent lc"
  shows "compareEnv lc a b \<le> 0 \<or> compareEnv lc b a \<le> 0"
proof -
  have t: "lc x y \<le> 0 \<or> lc y x \<le> 0" for x y
    using assms unfolding consistent_def by blast
  show ?thesis
    using t [of "key a" "key b"]
    by (cases "inPriority a"; cases "inPriority b") (auto simp: compareEnv_cases)
qed

lemma compareEnv_trans:
  assumes "consistent lc" and "compareEnv lc a b \<le> 0" and "compareEnv lc b c \<le> 0"
  shows "compareEnv lc a c \<le> 0"
proof -
  have t: "lc x y \<le> 0 \<Longrightarrow> lc y z \<le> 0 \<Longrightarrow> lc x z \<le> 0" for x y z
    using assms(1) unfolding consistent_def by blast
  show ?thesis
    using assms(2) assms(3) t [of "key a" "key b" "key c"]
    by (cases "inPriority a"; cases "inPriority b"; cases "inPriority c")
       (simp_all add: compareEnv_cases)
qed

lemma sorted_insertBy:
  assumes total: "\<And>a b. cmp a b \<le> 0 \<or> cmp b a \<le> 0"
    and trans: "\<And>a b c. cmp a b \<le> 0 \<Longrightarrow> cmp b c \<le> 0 \<Longrightarrow> cmp a c \<le> 0"
  shows "sorted_wrt (\<lambda>a b. cmp a b \<le> 0) ys \<Longrightarrow> sorted_wrt (\<lambda>a b. cmp a b \<le> 0) (insertBy cmp x ys)"
proof (induction ys)
  case Nil
  then show ?case by simp
next
  case (Cons y ys)
  show ?case
  proof (cases "cmp x y \<le> 0")
    case True
    then have "\<forall>z\<in>set ys. cmp x z \<le> 0"
      using Cons.prems trans by auto
    then show ?thesis using True Cons.prems by simp
  next
    case False
    then have "cmp y x \<le> 0" using total by blast
    then show ?thesis using False Cons by (simp add: set_insertBy)
  qed
qed

lemma sorted_sortBy:
  assumes "\<And>a b. cmp a b \<le> 0 \<or> cmp b a \<le> 0"
    and "\<And>a b c. cmp a b \<le> 0 \<Longrightarrow> cmp b c \<le> 0 \<Longrightarrow> cmp a c \<le> 0"
  shows "sorted_wrt (\<lambda>a b. cmp a b \<le> 0) (sortBy cmp xs)"
proof (induction xs)
  case Nil
  show ?case by (simp add: sortBy_def)
next
  case (Cons x xs)
  have "sortBy cmp (x # xs) = insertBy cmp x (sortBy cmp xs)"
    by (simp add: sortBy_def)
  then show ?case
    using sorted_insertBy [of cmp "sortBy cmp xs" x, OF assms Cons] by simp
qed

lemma sorted_partition:
  "sorted_wrt R ys \<Longrightarrow> (\<And>a b. \<not> P a \<Longrightarrow> P b \<Longrightarrow> \<not> R a b) \<Longrightarrow>
   ys = filter P ys @ filter (\<lambda>v. \<not> P v) ys"
proof (induction ys)
  case Nil
  then show ?case by simp
next
  case (Cons y ys)
  have ih: "ys = filter P ys @ filter (\<lambda>v. \<not> P v) ys"
    using Cons by simp
  show ?case
  proof (cases "P y")
    case True
    then show ?thesis using ih by simp
  next
    case False
    then have "\<forall>z\<in>set ys. \<not> P z"
      using Cons.prems by auto
    then have "filter P ys = []" "filter (\<lambda>v. \<not> P v) ys = ys"
      by (simp_all add: filter_drop_all filter_keep_all)
    then show ?thesis using False by simp
  qed
qed

lemma consistent_codeUnitCompare: "consistent codeUnitCompare"
proof -
  have le: "(codeUnitCompare a b \<le> 0) = (a \<le> b)" for a b
    by (auto simp: codeUnitCompare_def)
  show ?thesis
    unfolding consistent_def le by auto
qed

section \<open>The sync run: progress and tree entries\<close>

text \<open>
  \<^bold>\<open>C3\<close>. For every sync run, over any file batch and whatever the host replies, the percent
  values delivered to the progress callback are non-decreasing; a run that ends without an
  error has 100 as its last report, and a run that ends with an error has never reported
  100. The run always ends: the model is a total function, its only loop is the one over
  the files. The hypothesis is what the proof needs of the floating-point computation of
  the percent of a file.
\<close>

theorem progress_monotone:
  assumes "monotoneFloor40 floor40"
    and "pushFilesToRepo floor40 token owner repo files dockerfileText composeText message
           (startWorld rs) = (res, w)"
  shows "sorted (percents (events w))
         \<and> (case res of
              Inl e \<Rightarrow> 100 \<notin> set (percents (events w))
            | Inr u \<Rightarrow> percents (events w) \<noteq> [] \<and> last (percents (events w)) = 100)"
  using endsWell_pushFilesToRepo [OF assms(1), of token owner repo files dockerfileText
      composeText message rs] assms(2)
  by (auto simp: endsWell_def split: sum.splits)

lemma monotoneFloor40_exact: "monotoneFloor40 exactFloor40"
proof -
  have "p * 40 div t \<le> 40" if "p \<le> t" for p t :: nat
  proof (cases "t = 0")
    case True
    then show ?thesis using that by simp
  next
    case False
    have "p * 40 div t \<le> t * 40 div t"
      using that by (intro div_le_mono) simp
    then show ?thesis using False by simp
  qed
  then show ?thesis
    by (auto simp: monotoneFloor40_def exactFloor40_def intro: div_le_mono)
qed

theorem progress_monotone_witness:
  "monotoneFloor40 exactFloor40
   \<and> fst exampleRun = Inr ()
   \<and> percents (events (snd exampleRun)) = [10, 20, 25, 40, 50, 60, 80, 90, 95, 100]
   \<and> sorted (percents (events (snd exampleRun)))
   \<and> last (percents (events (snd exampleRun))) = 100
   \<and> fst cutOffRun = Inl NetworkError
   \<and> percents (events (snd cutOffRun)) = [10, 20, 25]
   \<and> 100 \<notin> set (percents (events (snd cutOffRun)))"
proof -
  have r1: "fst exampleRun = Inr ()"
    by code_simp
  have p1: "percents (events (snd exampleRun)) = [10, 20, 25, 40, 50, 60, 80, 90, 95, 100]"
    by code_simp
  have r2: "fst cutOffRun = Inl NetworkError"
    by code_simp
  have p2: "percents (events (snd cutOffRun)) = [10, 20, 25]"
    by code_simp
  have e1: "pushFilesToRepo exactFloor40 ''token'' ''me'' ''app''
       [textFile ''a.txt'', textFile ''node_modules/x.js'', textFile ''b.txt'', textFile ''c.txt'']
       ''FROM node'' ''services:'' ''Update''
       (startWorld [notFound, created ''d1'', created ''c1'', created ''a1'', serverError,
                    created ''c3'', created ''t1'', created ''k1'', updated])
       = (fst exampleRun, snd exampleRun)"
    by (simp add: exampleRun_def)
  have e2: "pushFilesToRepo exactFloor40 ''token'' ''me'' ''app'' [textFile ''a.txt'']
       ''FROM node'' ''services:'' ''Update'' (startWorld [notFound, created ''d1''])
       = (fst cutOffRun, snd cutOffRun)"
    by (simp add: cutOffRun_def)
  show ?thesis
    using progress_monotone [OF monotoneFloor40_exact e1]
      progress_monotone [OF monotoneFloor40_exact e2] r1 r2 p1 p2 monotoneFloor40_exact
    by simp
qed

text \<open>
  \<^bold>\<open>C9\<close>. Every entry of every tree a sync run sends, for the two generated files and for
  every uploaded file, has mode \<open>100644\<close> and type \<open>blob\<close>.
\<close>

theorem tree_entries_regular:
  assumes "pushFilesToRepo floor40 token owner repo files dockerfileText composeText message
             (startWorld rs) = (res, w)"
    and "(bt, items) \<in> set (treesSent (events w))"
    and "item \<in> set items"
  shows "t_mode item = ''100644'' \<and> t_type item = ''blob''"
proof -
  from pushFilesToRepo_sent [OF assms(1)] assms(2)
  obtain w1 w2 where
    "uploadAll floor40 token owner repo files dockerfileText composeText w1 = (Inr items, w2)"
    by (auto simp: startWorld_sent)
  then have "\<forall>i\<in>set items. regularBlob i"
    by (rule uploadAll_regular)
  then show ?thesis
    using assms(3) by (simp add: regularBlob_def)
qed


theorem tree_entries_regular_witness:
  "fst exampleRun = Inr ()
   \<and> treesSent (events (snd exampleRun))
       = [(Some JNull,
           [blobItem ''Dockerfile'' (Some (JString ''d1'')),
            blobItem ''docker-compose.yaml'' (Some (JString ''c1'')),
            blobItem ''a.txt'' (Some (JString ''a1'')),
            blobItem ''c.txt'' (Some (JString ''c3''))])]
   \<and> t_mode (blobItem ''c.txt'' (Some (JString ''c3''))) = ''100644''
   \<and> t_type (blobItem ''c.txt'' (Some (JString ''c3''))) = ''blob''"
proof -
  let ?items = "[blobItem ''Dockerfile'' (Some (JString ''d1'')),
            blobItem ''docker-compose.yaml'' (Some (JString ''c1'')),
            blobItem ''a.txt'' (Some (JString ''a1'')),
            blobItem ''c.txt'' (Some (JString ''c3''))]"
  have r1: "fst exampleRun = Inr ()"
    by code_simp
  have t1: "treesSent (events (snd exampleRun)) = [(Some JNull, ?items)]"
    by code_simp
  have e1: "pushFilesToRepo exactFloor40 ''token'' ''me'' ''app''
       [textFile ''a.txt'', textFile ''node_modules/x.js'', textFile ''b.txt'', textFile ''c.txt'']
       ''FROM node'' ''services:'' ''Update''
       (startWorld [notFound, created ''d1'', created ''c1'', created ''a1'', serverError,
                    created ''c3'', created ''t1'', created ''k1'', updated])
       = (fst exampleRun, snd exampleRun)"
    by (simp add: exampleRun_def)
  have m1: "(Some JNull, ?items) \<in> set (treesSent (events (snd exampleRun)))"
    using t1 by simp
  have m2: "blobItem ''c.txt'' (Some (JString ''c3'')) \<in> set ?items"
    by simp
  show ?thesis
    using tree_entries_regular [OF e1 m1 m2] r1 t1 by simp
qed

section \<open>The sync run: the resolution of the branch\<close>

text \<open>
  \<^bold>\<open>C1\<close> (as amended). When the request for the tip of the target branch gets a response
  that is not ok, whatever its status (not found, not authorized, a server failure), the
  run is not fatal: base tree and parent commit are \<open>null\<close> and the run goes on to upload
  the build file. The run is fatal in this phase exactly when the resolution throws, which
  it does in the cases of \<open>resolutionError\<close> and in no other: the request for the reference
  is rejected; the response to it is ok and its body is not JSON or does not give
  \<open>object.sha\<close>; or that response names a commit and the request for the commit is
  rejected or the body of the response to it, whose status the code never tests, is not
  JSON or does not give \<open>tree.sha\<close>. The error is then the platform's network, syntax or
  type error, it is the run's error, and the run makes no further request. In every other
  case the run goes on and asks for the upload of the build file.
\<close>

theorem branch_resolution:
  assumes "pushFilesToRepo floor40 token owner repo files dockerfileText composeText message
             (startWorld rs) = (res, w)"
  shows "((\<exists>status b rest. rs = Response status b # rest \<and> \<not> ok status) \<longrightarrow>
            fst (resolveBase token owner repo
                   (onProgress 10 ''Getting repo info...'' (startWorld rs)))
              = Inr (Some JNull, Some JNull)
            \<and> (\<exists>more. requestsOf (events w)
                   = refRequest token owner repo
                     # blobRequest token owner repo (Some dockerfileText) Utf8 # more))
       \<and> (\<forall>e. fst (resolveBase token owner repo
                      (onProgress 10 ''Getting repo info...'' (startWorld rs))) = Inl e \<longrightarrow>
              res = Inl e
              \<and> w = snd (resolveBase token owner repo
                           (onProgress 10 ''Getting repo info...'' (startWorld rs)))
              \<and> (e = NetworkError \<or> e = SyntaxError \<or> e = TypeError)
              \<and> length (requestsOf (events w)) \<le> 2)
       \<and> (\<forall>e. (fst (resolveBase token owner repo
                       (onProgress 10 ''Getting repo info...'' (startWorld rs))) = Inl e)
                = (resolutionError rs = Some e))
       \<and> (resolutionError rs = None \<longrightarrow>
              blobRequest token owner repo (Some dockerfileText) Utf8
                \<in> set (requestsOf (events w)))"
proof -
  let ?w0 = "onProgress 10 ''Getting repo info...'' (startWorld rs)"
  obtain r1 w1 where rb: "resolveBase token owner repo ?w0 = (r1, w1)"
    by (cases "resolveBase token owner repo ?w0") auto
  have A: "fst (resolveBase token owner repo ?w0) = Inr (Some JNull, Some JNull)
           \<and> (\<exists>more. requestsOf (events w)
                 = refRequest token owner repo
                   # blobRequest token owner repo (Some dockerfileText) Utf8 # more)"
    if "rs = Response status b # rest" and "\<not> ok status" for status b rest
  proof -
    have n: "nextReply ?w0 = Response status b"
      using that(1) by (simp add: nextReply_def startWorld_def sent_simps)
    have r1: "r1 = Inr (Some JNull, Some JNull)"
      and w1: "w1 = asked (refRequest token owner repo) ?w0"
      using rb n that(2) by (simp_all add: resolveBase_def refRequest_def fetch_eq)
    have q1: "requestsOf (events w1) = [refRequest token owner repo]"
      using w1 by (simp add: startWorld_def sent_simps requestsOf_append)
    obtain r2 w2 where
      ua: "uploadAll floor40 token owner repo files dockerfileText composeText w1 = (r2, w2)"
      by (cases "uploadAll floor40 token owner repo files dockerfileText composeText w1") auto
    from uploadAll_first [OF ua] obtain es where
      e2: "events w2 = events w1 @ Progress 20 ''Uploading Dockerfile...''
             # Fetch (blobRequest token owner repo (Some dockerfileText) Utf8) (nextReply w1) # es"
      by blast
    have "grows w2 w"
    proof (cases r2)
      case (Inl e)
      then have "w = w2" using assms rb r1 ua by (simp add: pushFilesToRepo_def)
      then show ?thesis by (simp add: grows_refl)
    next
      case (Inr items)
      then have "createTree token owner repo message (Some JNull) (Some JNull) items w2 = (res, w)"
        using assms rb r1 ua by (simp add: pushFilesToRepo_def)
      then show ?thesis by (rule grows_createTree)
    qed
    then obtain es' where "events w = events w2 @ es'"
      by (auto simp: grows_def)
    then have "requestsOf (events w)
        = refRequest token owner repo
          # blobRequest token owner repo (Some dockerfileText) Utf8 # requestsOf (es @ es')"
      using e2 q1 by (simp add: requestsOf_append)
    then show ?thesis using rb r1 by auto
  qed
  have B: "res = Inl e \<and> w = snd (resolveBase token owner repo ?w0)
           \<and> (e = NetworkError \<or> e = SyntaxError \<or> e = TypeError)
           \<and> length (requestsOf (events w)) \<le> 2"
    if "fst (resolveBase token owner repo ?w0) = Inl e" for e
  proof -
    have r1: "r1 = Inl e" using that rb by simp
    have "res = Inl e" "w = w1"
      using assms rb r1 by (simp_all add: pushFilesToRepo_def)
    moreover have "(e = NetworkError \<or> e = SyntaxError \<or> e = TypeError)
         \<and> length (requestsOf (events w1)) \<le> length (requestsOf (events ?w0)) + 2"
      using rb r1 resolveBase_error by blast
    moreover have "requestsOf (events ?w0) = []"
      by (simp add: startWorld_def sent_simps)
    ultimately show ?thesis using rb by simp
  qed
  have C: "(fst (resolveBase token owner repo ?w0) = Inl e) = (resolutionError rs = Some e)"
    for e
    using resolveBase_throws [of token owner repo ?w0 e]
    by (simp add: startWorld_def sent_simps)
  have D: "blobRequest token owner repo (Some dockerfileText) Utf8 \<in> set (requestsOf (events w))"
    if "resolutionError rs = None"
  proof -
    have "fst (resolveBase token owner repo ?w0) \<noteq> Inl e" for e
      using C [of e] that by simp
    then obtain bt pc where r1: "r1 = Inr (bt, pc)"
      using rb by (cases r1) auto
    obtain r2 w2 where
      ua: "uploadAll floor40 token owner repo files dockerfileText composeText w1 = (r2, w2)"
      by (cases "uploadAll floor40 token owner repo files dockerfileText composeText w1") auto
    from uploadAll_first [OF ua] obtain es where
      e2: "events w2 = events w1 @ Progress 20 ''Uploading Dockerfile...''
             # Fetch (blobRequest token owner repo (Some dockerfileText) Utf8) (nextReply w1) # es"
      by blast
    have "grows w2 w"
    proof (cases r2)
      case (Inl e)
      then have "w = w2" using assms rb r1 ua by (simp add: pushFilesToRepo_def)
      then show ?thesis by (simp add: grows_refl)
    next
      case (Inr items)
      then have "createTree token owner repo message bt pc items w2 = (res, w)"
        using assms rb r1 ua by (simp add: pushFilesToRepo_def)
      then show ?thesis by (rule grows_createTree)
    qed
    then obtain es' where "events w = events w2 @ es'"
      by (auto simp: grows_def)
    then show ?thesis
      using e2 by (simp add: requestsOf_append)
  qed
  show ?thesis using A B C D by blast
qed

theorem branch_resolution_witness:
  "\<not> ok 500
   \<and> fst serverErrorRun = Inr ()
   \<and> map r_method (requestsOf (events (snd serverErrorRun)))
       = [''GET'', ''POST'', ''POST'', ''POST'', ''POST'', ''PATCH'']
   \<and> (\<exists>more. requestsOf (events (snd serverErrorRun))
         = refRequest ''token'' ''me'' ''app''
           # blobRequest ''token'' ''me'' ''app'' (Some ''FROM node'') Utf8 # more)
   \<and> fst (resolveBase ''token'' ''me'' ''app''
            (onProgress 10 ''Getting repo info...'' (startWorld [Rejected, created ''d1''])))
       = Inl NetworkError
   \<and> fst rejectedRun = Inl NetworkError
   \<and> length (requestsOf (events (snd rejectedRun))) \<le> 2
   \<and> resolutionError [refFound ''p0'', notFound, created ''d1''] = Some TypeError
   \<and> fst lookupFailsRun = Inl TypeError
   \<and> map r_method (requestsOf (events (snd lookupFailsRun))) = [''GET'', ''GET'']
   \<and> resolutionError [serverError, created ''d1'', created ''c1'', created ''t1'', created ''k1'',
                         updated] = None
   \<and> blobRequest ''token'' ''me'' ''app'' (Some ''FROM node'') Utf8
       \<in> set (requestsOf (events (snd serverErrorRun)))"
proof -
  have h1: "\<not> ok 500"
    by code_simp
  have e1: "pushFilesToRepo exactFloor40 ''token'' ''me'' ''app'' [] ''FROM node'' ''services:''
       ''Update''
       (startWorld [Response 500 (Some (JObject [(''message'', JString ''Server Error'')])),
                    created ''d1'', created ''c1'', created ''t1'', created ''k1'', updated])
       = (fst serverErrorRun, snd serverErrorRun)"
    by (simp add: serverErrorRun_def serverError_def)
  have e2: "pushFilesToRepo exactFloor40 ''token'' ''me'' ''app'' [] ''FROM node'' ''services:''
       ''Update'' (startWorld [Rejected, created ''d1'']) = (fst rejectedRun, snd rejectedRun)"
    by (simp add: rejectedRun_def)
  have e3: "pushFilesToRepo exactFloor40 ''token'' ''me'' ''app'' [] ''FROM node'' ''services:''
       ''Update'' (startWorld [refFound ''p0'', notFound, created ''d1''])
       = (fst lookupFailsRun, snd lookupFailsRun)"
    by (simp add: lookupFailsRun_def)
  have h2: "fst (resolveBase ''token'' ''me'' ''app''
            (onProgress 10 ''Getting repo info...'' (startWorld [Rejected, created ''d1''])))
       = Inl NetworkError"
    by code_simp
  have h3: "resolutionError [refFound ''p0'', notFound, created ''d1''] = Some TypeError"
    by code_simp
  have h4: "resolutionError [Response 500 (Some (JObject [(''message'', JString ''Server Error'')])),
                    created ''d1'', created ''c1'', created ''t1'', created ''k1'', updated]
              = None"
    by code_simp
  have v1: "fst serverErrorRun = Inr ()"
    by code_simp
  have v2: "map r_method (requestsOf (events (snd serverErrorRun)))
       = [''GET'', ''POST'', ''POST'', ''POST'', ''POST'', ''PATCH'']"
    by code_simp
  have v3: "map r_method (requestsOf (events (snd lookupFailsRun))) = [''GET'', ''GET'']"
    by code_simp
  from branch_resolution [OF e3] h3
  have c3: "fst lookupFailsRun = Inl TypeError"
    by blast
  from branch_resolution [OF e1] h4
  have c4: "blobRequest ''token'' ''me'' ''app'' (Some ''FROM node'') Utf8
       \<in> set (requestsOf (events (snd serverErrorRun)))"
    by blast
  have c1: "\<exists>more. requestsOf (events (snd serverErrorRun))
         = refRequest ''token'' ''me'' ''app''
           # blobRequest ''token'' ''me'' ''app'' (Some ''FROM node'') Utf8 # more"
    using branch_resolution [OF e1] h1 by blast
  have c2: "fst rejectedRun = Inl NetworkError
            \<and> length (requestsOf (events (snd rejectedRun))) \<le> 2"
    using branch_resolution [OF e2] h2 by blast
  show ?thesis
    using h1 h2 h3 h4 v1 v2 v3 c1 c2 c3 c4 by (simp add: serverError_def)
qed

text \<open>
  The claim as stated fails: the host answers the request for the branch with a server
  error (status 500), and the run is not fatal; it makes five further requests, publishes a
  commit without a parent, and reports 100.
\<close>

theorem server_error_not_fatal_counterexample:
  "serverError = Response 500 (Some (JObject [(''message'', JString ''Server Error'')]))
   \<and> \<not> ok 500
   \<and> fst serverErrorRun = Inr ()
   \<and> map r_method (requestsOf (events (snd serverErrorRun)))
       = [''GET'', ''POST'', ''POST'', ''POST'', ''POST'', ''PATCH'']
   \<and> percents (events (snd serverErrorRun)) = [10, 20, 25, 80, 90, 95, 100]
   \<and> commitsSent (events (snd serverErrorRun)) = [(''Update'', Some (JString ''t1''), None)]"
  by code_simp

text \<open>
  \<^bold>\<open>C7\<close>. When the target branch does not exist at the start of a run (the response to the
  request for its tip is not ok), the resolution raises no error and gives \<open>null\<close> for the
  base tree and the parent commit; any tree the run sends has the base \<open>null\<close>, any commit
  it sends has no parents; and when the host answers every later request with success,
  the run ends without an error, having sent one tree and one commit.
\<close>

theorem fresh_branch:
  assumes "\<not> ok status"
    and "pushFilesToRepo floor40 token owner repo files dockerfileText composeText message
           (startWorld (Response status b # rs)) = (res, w)"
  shows "fst (resolveBase token owner repo
                (onProgress 10 ''Getting repo info...'' (startWorld (Response status b # rs))))
           = Inr (Some JNull, Some JNull)
       \<and> (\<forall>(bt, items)\<in>set (treesSent (events w)). bt = Some JNull)
       \<and> (\<forall>(m, t, ps)\<in>set (commitsSent (events w)). ps = None)
       \<and> ((\<forall>r\<in>set rs. goodReply r) \<and> length files + 5 \<le> length rs \<longrightarrow>
            res = Inr ()
            \<and> (\<exists>items. treesSent (events w) = [(Some JNull, items)])
            \<and> (\<exists>t. commitsSent (events w) = [(message, t, None)]))"
proof -
  let ?w0 = "onProgress 10 ''Getting repo info...'' (startWorld (Response status b # rs))"
  have pre: "resolved [Response status b] = Some (Some JNull, Some JNull)"
    using assms(1) by simp
  have "replies ?w0 = [Response status b] @ rs"
    by (simp add: startWorld_def sent_simps)
  from resolveBase_resolved [OF pre this, of token owner repo]
  obtain w1 where rb: "resolveBase token owner repo ?w0 = (Inr (Some JNull, Some JNull), w1)"
    and r1: "replies w1 = rs"
    by blast
  have A: "fst (resolveBase token owner repo ?w0) = Inr (Some JNull, Some JNull)"
    using rb by simp
  have sent: "(treesSent (events w) = [] \<and> commitsSent (events w) = [])
       \<or> (\<exists>items. treesSent (events w) = [(Some JNull, items)]
           \<and> (commitsSent (events w) = []
              \<or> (\<exists>t. commitsSent (events w) = [(message, t, None)])))"
    using pushFilesToRepo_sent [OF assms(2)] rb
    by (auto simp: startWorld_sent parentsOf_null)
  have B: "\<forall>(bt, items)\<in>set (treesSent (events w)). bt = Some JNull"
    using sent by auto
  have C: "\<forall>(m, t, ps)\<in>set (commitsSent (events w)). ps = None"
    using sent by auto
  have D: "res = Inr () \<and> (\<exists>items. treesSent (events w) = [(Some JNull, items)])
            \<and> (\<exists>t. commitsSent (events w) = [(message, t, None)])"
    if good: "\<forall>r\<in>set rs. goodReply r" and len: "length files + 5 \<le> length rs"
  proof -
    obtain a1 rs1 where 1: "rs = a1 # rs1"
      using len by (cases rs) auto
    obtain a2 rest where 2: "rs1 = a2 # rest"
      using len 1 by (cases rs1) auto
    have rs: "rs = a1 # a2 # rest"
      using 1 2 by simp
    have g: "goodReply a1" "goodReply a2" "\<forall>r\<in>set rest. goodReply r"
      using good rs by auto
    from uploadAll_good [OF r1 [unfolded rs] g(1) g(2), of floor40 token owner repo files
        dockerfileText composeText]
    obtain s1 s2 w2 items w3 where
      fs: "uploadFiles floor40 token owner repo (length files) files 0
             [blobItem ''Dockerfile'' s1, blobItem ''docker-compose.yaml'' s2] w2 = (items, w3)"
      and r2: "replies w2 = rest"
      and ua: "uploadAll floor40 token owner repo files dockerfileText composeText w1
                 = (Inr items, w3)"
      by blast
    obtain k where k: "k \<le> length files" "replies w3 = drop k rest"
      using uploadFiles_replies [OF fs] r2 by auto
    have "k + 3 \<le> length rest"
      using k(1) len rs by simp
    then obtain t c u rest' where d: "drop k rest = t # c # u # rest'"
      by (rule drop_tail3)
    have "set (drop k rest) \<subseteq> set rest"
      by (rule set_drop_subset)
    then have g3: "goodReply t" "goodReply c" "goodReply u"
      using d g(3) by auto
    have r3: "replies w3 = t # c # u # rest'"
      using k(2) d by simp
    have s3: "sameSent (startWorld (Response status b # rs)) w3"
    proof -
      have "sameSent (startWorld (Response status b # rs)) w1"
        using sameSent_onProgress sameSent_resolveBase [OF rb] by (rule sameSent_trans)
      then show ?thesis
        using uploadAll_sent [OF ua] by (rule sameSent_trans)
    qed
    from createTree_good [OF r3 g3, of token owner repo message "Some JNull" "Some JNull" items]
    obtain w' s where
      ct: "createTree token owner repo message (Some JNull) (Some JNull) items w3 = (Inr (), w')"
      and ts: "treesSent (events w') = treesSent (events w3) @ [(Some JNull, items)]"
      and cs: "commitsSent (events w')
                 = commitsSent (events w3) @ [(message, s, parentsOf (Some JNull))]"
      by blast
    have "(res, w) = (Inr (), w')"
      using assms(2) pushFilesToRepo_steps [OF rb ua, of message] ct by simp
    then show ?thesis
      using ts cs s3 by (simp add: sameSent_def startWorld_sent parentsOf_null)
  qed
  show ?thesis using A B C D by blast
qed

theorem fresh_branch_witness:
  "\<not> ok 404
   \<and> list_all goodReply [created ''d1'', created ''c1'', created ''a1'', created ''t1'',
                         created ''k1'', updated]
   \<and> fst freshRun = Inr ()
   \<and> (\<exists>items. treesSent (events (snd freshRun)) = [(Some JNull, items)])
   \<and> commitsSent (events (snd freshRun)) = [(''Update'', Some (JString ''t1''), None)]"
proof -
  have h1: "\<not> ok 404"
    by code_simp
  have h2: "\<forall>r\<in>set [created ''d1'', created ''c1'', created ''a1'', created ''t1'',
                     created ''k1'', updated]. goodReply r"
    by code_simp
  have h3: "length [textFile ''a.txt''] + 5
              \<le> length [created ''d1'', created ''c1'', created ''a1'', created ''t1'',
                          created ''k1'', updated]"
    by simp
  have e1: "pushFilesToRepo exactFloor40 ''token'' ''me'' ''app'' [textFile ''a.txt'']
       ''FROM node'' ''services:'' ''Update''
       (startWorld (Response 404 (Some (JObject [(''message'', JString ''Not Found'')]))
                    # [created ''d1'', created ''c1'', created ''a1'', created ''t1'',
                       created ''k1'', updated]))
       = (fst freshRun, snd freshRun)"
    by (simp add: freshRun_def notFound_def)
  have v1: "commitsSent (events (snd freshRun)) = [(''Update'', Some (JString ''t1''), None)]"
    by code_simp
  show ?thesis
    using fresh_branch [OF h1 e1] h1 h2 h3 v1 by (simp add: list_all_iff)
qed

section \<open>The sync run: a file whose upload fails\<close>

text \<open>
  \<^bold>\<open>C4\<close>. The failure of the upload of a file never aborts the run. For every batch of
  files that are not excluded and can be read, when the branch resolves, the uploads of
  the two generated files succeed and so do the requests for the tree, the commit and the
  reference, the run ends without an error whichever uploads of files fail, and the tree
  it sends holds the build file, the compose file and exactly the files whose upload
  succeeded, in their order. The witness is the batch of ten files of which one fails:
  the tree holds the two generated files and nine file entries, the failed file is not
  among them.
\<close>

theorem skip_not_abort:
  assumes "resolved pre = Some (bt, pc)"
    and "goodReply a1" and "goodReply a2"
    and "goodReply t" and "goodReply c" and "goodReply u"
    and "length frs = length files"
    and "\<forall>f\<in>set files. \<not> skipped f \<and> readable f"
    and "pushFilesToRepo floor40 token owner repo files dockerfileText composeText message
           (startWorld (pre @ a1 # a2 # frs @ [t, c, u])) = (res, w)"
  shows "res = Inr ()
       \<and> (\<exists>s1 s2. treesSent (events w)
             = [(bt, blobItem ''Dockerfile'' s1 # blobItem ''docker-compose.yaml'' s2
                       # uploadedItems files frs)])
       \<and> map t_path (uploadedItems files frs)
           = map (path \<circ> fst) (filter (\<lambda>(f, r). uploadedSha r \<noteq> None) (zip files frs))
       \<and> length (uploadedItems files frs)
           = length (filter (\<lambda>r. uploadedSha r \<noteq> None) frs)"
proof -
  let ?start = "startWorld (pre @ a1 # a2 # frs @ [t, c, u])"
  let ?w0 = "onProgress 10 ''Getting repo info...'' ?start"
  have "replies ?w0 = pre @ (a1 # a2 # frs @ [t, c, u])"
    by (simp add: startWorld_def sent_simps)
  from resolveBase_resolved [OF assms(1) this, of token owner repo]
  obtain w1 where rb: "resolveBase token owner repo ?w0 = (Inr (bt, pc), w1)"
    and r1: "replies w1 = a1 # a2 # frs @ [t, c, u]"
    by blast
  from uploadAll_good [OF r1 assms(2) assms(3), of floor40 token owner repo files
      dockerfileText composeText]
  obtain s1 s2 w2 items w3 where
    fs: "uploadFiles floor40 token owner repo (length files) files 0
           [blobItem ''Dockerfile'' s1, blobItem ''docker-compose.yaml'' s2] w2 = (items, w3)"
    and r2: "replies w2 = frs @ [t, c, u]"
    and ua: "uploadAll floor40 token owner repo files dockerfileText composeText w1
               = (Inr items, w3)"
    by blast
  from uploadFiles_exact [OF assms(8) assms(7) r2, of floor40 token owner repo "length files" 0
      "[blobItem ''Dockerfile'' s1, blobItem ''docker-compose.yaml'' s2]"] fs
  have items: "items = [blobItem ''Dockerfile'' s1, blobItem ''docker-compose.yaml'' s2]
                 @ uploadedItems files frs"
    and r3: "replies w3 = [t, c, u]"
    by auto
  have s3: "sameSent ?start w3"
  proof -
    have "sameSent ?start w1"
      using sameSent_onProgress sameSent_resolveBase [OF rb] by (rule sameSent_trans)
    then show ?thesis
      using uploadAll_sent [OF ua] by (rule sameSent_trans)
  qed
  have r3': "replies w3 = t # c # u # []"
    using r3 by simp
  from createTree_good [OF r3' assms(4) assms(5) assms(6), of token owner repo message bt pc
      items]
  obtain w' where
    ct: "createTree token owner repo message bt pc items w3 = (Inr (), w')"
    and ts: "treesSent (events w') = treesSent (events w3) @ [(bt, items)]"
    by blast
  have rw: "(res, w) = (Inr (), w')"
    using assms(9) pushFilesToRepo_steps [OF rb ua, of message] ct by simp
  have "treesSent (events w) = [(bt, items)]"
    using rw ts s3 by (simp add: sameSent_def startWorld_sent)
  then have "\<exists>s1 s2. treesSent (events w)
             = [(bt, blobItem ''Dockerfile'' s1 # blobItem ''docker-compose.yaml'' s2
                       # uploadedItems files frs)]"
    using items by auto
  then show ?thesis
    using rw uploadedItems_paths [of files frs] uploadedItems_length [OF assms(7)]
    by simp
qed

theorem skip_not_abort_witness:
  "length tenFiles = 10
   \<and> length (filter (\<lambda>r. uploadedSha r = None) tenReplies) = 1
   \<and> fst tenRun = Inr ()
   \<and> (\<exists>s1 s2. treesSent (events (snd tenRun))
         = [(Some JNull, blobItem ''Dockerfile'' s1 # blobItem ''docker-compose.yaml'' s2
                           # uploadedItems tenFiles tenReplies)])
   \<and> map t_path (uploadedItems tenFiles tenReplies)
       = [''f0.txt'', ''f1.txt'', ''f2.txt'', ''f4.txt'', ''f5.txt'', ''f6.txt'', ''f7.txt'',
          ''f8.txt'', ''f9.txt'']
   \<and> length (uploadedItems tenFiles tenReplies) = 9"
proof -
  have h1: "resolved [notFound] = Some (Some JNull, Some JNull)"
    by code_simp
  have h2: "goodReply (created ''d1'')" "goodReply (created ''c1'')" "goodReply (created ''t1'')"
    "goodReply (created ''k1'')" "goodReply updated"
    by code_simp+
  have h3: "length tenReplies = length tenFiles"
    by code_simp
  have h4: "\<forall>f\<in>set tenFiles. \<not> skipped f \<and> readable f"
    by code_simp
  have h5: "pushFilesToRepo exactFloor40 ''token'' ''me'' ''app'' tenFiles ''FROM node''
       ''services:'' ''Update''
       (startWorld ([notFound] @ created ''d1'' # created ''c1'' # tenReplies
                    @ [created ''t1'', created ''k1'', updated])) = (fst tenRun, snd tenRun)"
    by (simp add: tenRun_def)
  have v1: "length tenFiles = 10"
    by code_simp
  have v2: "length (filter (\<lambda>r. uploadedSha r = None) tenReplies) = 1"
    by code_simp
  have v3: "map (path \<circ> fst) (filter (\<lambda>(f, r). uploadedSha r \<noteq> None) (zip tenFiles tenReplies))
       = [''f0.txt'', ''f1.txt'', ''f2.txt'', ''f4.txt'', ''f5.txt'', ''f6.txt'', ''f7.txt'',
          ''f8.txt'', ''f9.txt'']"
    by code_simp
  have v4: "length (filter (\<lambda>r. uploadedSha r \<noteq> None) tenReplies) = 9"
    by code_simp
  show ?thesis
    using skip_not_abort [OF h1 h2 h3 h4 h5] v1 v2 v3 v4 by simp
qed

section \<open>The deployment: creation of the repository\<close>



section \<open>The compose file\<close>

text \<open>
  \<^bold>\<open>C5\<close>. For every list of variables, with or without repeated keys, the environment
  block of the compose file has one entry for each distinct key, the entry of the first
  variable with that key: the keys of the entries are the keys of the list without their
  repetitions, in the order of their first occurrences. Each entry is \<open>KEY=${KEY}\<close> after
  six blanks and a dash, so the block and the whole compose file depend on the keys only,
  never on a value. When no key holds a line feed the entries are the lines of the block.
\<close>

theorem compose_environment_block:
  "map key (uniqueEnvs vars) = firstOccurrences (map key vars)
   \<and> distinct (map key (uniqueEnvs vars))
   \<and> set (map key (uniqueEnvs vars)) = set (map key vars)
   \<and> (\<forall>v\<in>set (uniqueEnvs vars). find (\<lambda>t. key t = key v) vars = Some v)
   \<and> envBlock vars
       = joinStr [LF] (map (\<lambda>k. ''      - '' @ k @ ''=${'' @ k @ ''}'')
                         (firstOccurrences (map key vars)))
   \<and> ((\<forall>v\<in>set vars. LF \<notin> set (key v)) \<and> vars \<noteq> [] \<longrightarrow>
        splitStr LF (envBlock vars)
          = map (\<lambda>k. ''      - '' @ k @ ''=${'' @ k @ ''}'') (firstOccurrences (map key vars)))
   \<and> (vars \<noteq> [] \<longrightarrow>
        (\<exists>pre post. dockerComposeContent vars p
           = pre @ ''    environment:'' @ [LF] @ envBlock vars @ post))
   \<and> (map key vars' = map key vars \<longrightarrow>
        dockerComposeContent vars' p = dockerComposeContent vars p)"
proof -
  have A: "vars \<noteq> [] \<longrightarrow>
        (\<exists>pre post. dockerComposeContent vars p
           = pre @ ''    environment:'' @ [LF] @ envBlock vars @ post)"
  proof
    assume "vars \<noteq> []"
    then have ne: "envBlock vars \<noteq> []" by (rule envBlock_nonempty)
    have "dockerComposeContent vars p
      = (''version: '3.8'' @ [SQ, LF] @ ''services:'' @ [LF] @ ''  app:'' @ [LF]
         @ ''    build: .'' @ [LF] @ ''    restart: always'' @ [LF] @ ''    expose:'' @ [LF]
         @ ''      - '' @ [DQ] @ numberText p @ [DQ, LF] @ ''    networks:'' @ [LF]
         @ ''      - coolify'' @ [LF])
        @ ''    environment:'' @ [LF] @ envBlock vars
        @ ([LF] @ [LF] @ ''networks:'' @ [LF] @ ''  coolify:'' @ [LF]
           @ ''    external: true'' @ [LF])"
      using ne by (simp add: dockerComposeContent_def)
    then show "\<exists>pre post. dockerComposeContent vars p
           = pre @ ''    environment:'' @ [LF] @ envBlock vars @ post"
      by blast
  qed
  have B: "map key vars' = map key vars \<longrightarrow>
        dockerComposeContent vars' p = dockerComposeContent vars p"
    by (simp add: dockerComposeContent_def envBlock_keys)
  show ?thesis
    using A B uniqueEnvs_keys [of vars] firstOccurrences_distinct [of "map key vars"]
      firstOccurrences_set [of "map key vars"] uniqueEnvs_first [of _ vars] envBlock_keys [of vars]
      envBlock_lines [of vars]
    by (simp del: set_map)
qed

theorem compose_environment_block_witness:
  "list_all (\<lambda>v. LF \<notin> set (key v)) duplicateVars
   \<and> map key duplicateVars = [''A'', ''B'', ''A'']
   \<and> map key (uniqueEnvs duplicateVars) = [''A'', ''B'']
   \<and> uniqueEnvs duplicateVars = [envVar ''A'' ''secret'', envVar ''B'' ''2'']
   \<and> splitStr LF (envBlock duplicateVars) = [''      - A=${A}'', ''      - B=${B}'']
   \<and> map key otherValues = map key duplicateVars
   \<and> dockerComposeContent otherValues 3000 = dockerComposeContent duplicateVars 3000"
proof -
  have h1: "list_all (\<lambda>v. LF \<notin> set (key v)) duplicateVars"
    by code_simp
  have h2: "duplicateVars \<noteq> []"
    by code_simp
  have h3: "map key otherValues = map key duplicateVars"
    by code_simp
  have v1: "map key duplicateVars = [''A'', ''B'', ''A'']"
    by code_simp
  have v2: "firstOccurrences [''A'', ''B'', ''A''] = [''A'', ''B'']"
    by code_simp
  have v3: "uniqueEnvs duplicateVars = [envVar ''A'' ''secret'', envVar ''B'' ''2'']"
    by code_simp
  from compose_environment_block [of duplicateVars 3000 otherValues]
  have K: "map key (uniqueEnvs duplicateVars) = firstOccurrences (map key duplicateVars)"
    and S: "(\<forall>v\<in>set duplicateVars. LF \<notin> set (key v)) \<and> duplicateVars \<noteq> [] \<longrightarrow>
        splitStr LF (envBlock duplicateVars)
          = map (\<lambda>k. ''      - '' @ k @ ''=${'' @ k @ ''}'')
              (firstOccurrences (map key duplicateVars))"
    and D: "map key otherValues = map key duplicateVars \<longrightarrow>
        dockerComposeContent otherValues 3000 = dockerComposeContent duplicateVars 3000"
    by blast+
  have c1: "map key (uniqueEnvs duplicateVars) = [''A'', ''B'']"
    using K v1 v2 by simp
  have c2: "splitStr LF (envBlock duplicateVars) = [''      - A=${A}'', ''      - B=${B}'']"
    using S h1 h2 v1 v2 by (simp add: list_all_iff)
  have c3: "dockerComposeContent otherValues 3000 = dockerComposeContent duplicateVars 3000"
    using D h3 by blast
  show ?thesis
    using h1 h3 v1 v3 c1 c2 c3 by blast
qed

section \<open>The merge of the standard variables\<close>

text \<open>
  \<^bold>\<open>C6\<close>. After the merge, a list that held only \<open>OPENROUTER_API_KEY\<close> with the value \<open>x\<close>
  holds all the standard keys, \<open>LLM_PROVIDER\<close>, \<open>BASE_URL\<close> and \<open>MODEL_NAME\<close> with their
  fixed values, and \<open>OPENROUTER_API_KEY\<close> still with \<open>x\<close>. In general every standard key is
  present after the merge; an entry with a non-empty value is kept as it is; a standard
  variable whose key is missing is appended as it stands; and for a standard key that is
  present, its first entry gets the standard value exactly when its own value is empty and
  the standard one is not. Nothing else is added.
\<close>

theorem mandatory_variables_merged:
  "map (\<lambda>v. (key v, val v))
     (envVars (mergeOnMount localeCompare
        (prev\<lparr>envVars := [\<lparr>key = ''OPENROUTER_API_KEY'', description = d, defaultValue = dv,
                             val = Some ''x''\<rparr>]\<rparr>)))
     = [(''HOST'', Some ''0.0.0.0''), (''LLM_PROVIDER'', Some ''openrouter''),
        (''OPENROUTER_API_KEY'', Some ''x''), (''GOOGLE_API_KEY'', Some ''''),
        (''BASE_URL'', Some ''https://openrouter.ai/api/v1''),
        (''MODEL_NAME'', Some ''meta-llama/llama-3.1-8b-instruct'')]
   \<and> set (map key STANDARD_LLM_VARS) \<subseteq> set (map key (envVars (mergeOnMount localeCompare prev)))
   \<and> (\<forall>e\<in>set (envVars prev).
         \<not> falsy (val e) \<longrightarrow> e \<in> set (envVars (mergeOnMount localeCompare prev)))
   \<and> (\<forall>s\<in>set STANDARD_LLM_VARS.
         key s \<notin> set (map key (envVars prev)) \<longrightarrow>
         s \<in> set (envVars (mergeOnMount localeCompare prev)))
   \<and> (\<forall>s\<in>set STANDARD_LLM_VARS. \<forall>e.
         find (\<lambda>v. key v = key s) (envVars prev) = Some e \<longrightarrow>
         (if falsy (val e) \<and> \<not> falsy (val s) then e\<lparr>val := val s\<rparr> else e)
           \<in> set (envVars (mergeOnMount localeCompare prev)))
   \<and> length (envVars (mergeOnMount localeCompare prev))
       = length (envVars prev)
         + length (filter (\<lambda>s. key s \<notin> set (map key (envVars prev))) STANDARD_LLM_VARS)"
proof -
  let ?K = "set (map key (envVars prev))"
  let ?out = "envVars (mergeOnMount localeCompare prev)"
  have out: "set ?out = set (foldl (mergeStdVar ?K) (envVars prev) STANDARD_LLM_VARS)"
    by (simp add: envVars_mergeOnMount set_sortBy mergedVars_def)
  have S: "map (\<lambda>v. (key v, val v))
     (envVars (mergeOnMount localeCompare
        (prev\<lparr>envVars := [\<lparr>key = ''OPENROUTER_API_KEY'', description = d, defaultValue = dv,
                             val = Some ''x''\<rparr>]\<rparr>)))
     = [(''HOST'', Some ''0.0.0.0''), (''LLM_PROVIDER'', Some ''openrouter''),
        (''OPENROUTER_API_KEY'', Some ''x''), (''GOOGLE_API_KEY'', Some ''''),
        (''BASE_URL'', Some ''https://openrouter.ai/api/v1''),
        (''MODEL_NAME'', Some ''meta-llama/llama-3.1-8b-instruct'')]"
    by (simp add: envVars_mergeOnMount merged_scenario sorted_scenario)
       (simp add: STANDARD_LLM_VARS_def)
  have P: "\<forall>e\<in>set (envVars prev). \<not> falsy (val e) \<longrightarrow> e \<in> set ?out"
  proof (intro ballI impI)
    fix e
    assume "e \<in> set (envVars prev)" and "\<not> falsy (val e)"
    then show "e \<in> set ?out"
      unfolding out by (rule fold_keeps_value)
  qed
  have A: "\<forall>s\<in>set STANDARD_LLM_VARS. key s \<notin> ?K \<longrightarrow> s \<in> set ?out"
  proof (intro ballI impI)
    fix s
    assume "s \<in> set STANDARD_LLM_VARS" and "key s \<notin> ?K"
    then show "s \<in> set ?out"
      unfolding out using STANDARD_distinct by (intro fold_appends)
  qed
  have B: "\<forall>s\<in>set STANDARD_LLM_VARS. \<forall>e.
         find (\<lambda>v. key v = key s) (envVars prev) = Some e \<longrightarrow>
         (if falsy (val e) \<and> \<not> falsy (val s) then e\<lparr>val := val s\<rparr> else e) \<in> set ?out"
  proof (intro ballI allI impI)
    fix s e
    assume s: "s \<in> set STANDARD_LLM_VARS"
      and f: "find (\<lambda>v. key v = key s) (envVars prev) = Some e"
    have e: "e \<in> set (envVars prev)" and ke: "key e = key s"
      using f by (auto simp: find_Some_iff)
    have "key e \<in> key ` set (envVars prev)" using e by (rule imageI)
    then have "key s \<in> ?K" using ke by simp
    from fold_backfills [OF s STANDARD_distinct this f]
    show "(if falsy (val e) \<and> \<not> falsy (val s) then e\<lparr>val := val s\<rparr> else e) \<in> set ?out"
      unfolding out .
  qed
  have M: "set (map key STANDARD_LLM_VARS) \<subseteq> set (map key ?out)"
  proof
    fix k
    assume "k \<in> set (map key STANDARD_LLM_VARS)"
    then obtain s where s: "s \<in> set STANDARD_LLM_VARS" and k: "k = key s"
      by auto
    show "k \<in> set (map key ?out)"
    proof (cases "find (\<lambda>v. key v = key s) (envVars prev)")
      case None
      then have "key s \<notin> ?K"
        by (auto simp: find_None_iff)
      then have "s \<in> set ?out" using A s by blast
      then have "key s \<in> key ` set ?out" by (rule imageI)
      then show ?thesis using k by simp
    next
      case (Some e)
      let ?e' = "if falsy (val e) \<and> \<not> falsy (val s) then e\<lparr>val := val s\<rparr> else e"
      have "?e' \<in> set ?out" using B s Some by blast
      then have "key ?e' \<in> key ` set ?out" by (rule imageI)
      moreover have "key ?e' = key s"
        using Some by (auto simp: find_Some_iff)
      ultimately show ?thesis using k by simp
    qed
  qed
  have L: "length ?out = length (envVars prev)
         + length (filter (\<lambda>s. key s \<notin> ?K) STANDARD_LLM_VARS)"
    by (simp add: envVars_mergeOnMount length_sortBy mergedVars_def fold_length)
  show ?thesis using S M P A B L by blast
qed

theorem mandatory_variables_merged_witness:
  "\<not> falsy (val (envVar ''OPENROUTER_API_KEY'' ''x''))
   \<and> envVar ''OPENROUTER_API_KEY'' ''x'' \<in> set (envVars seededAnalysis)
   \<and> envVar ''OPENROUTER_API_KEY'' ''x''
       \<in> set (envVars (mergeOnMount codeUnitCompare seededAnalysis))
   \<and> STANDARD_LLM_VARS ! 5 \<in> set STANDARD_LLM_VARS
   \<and> key (STANDARD_LLM_VARS ! 5) = ''HOST''
   \<and> ''HOST'' \<notin> set (map key (envVars seededAnalysis))
   \<and> STANDARD_LLM_VARS ! 5 \<in> set (envVars (mergeOnMount codeUnitCompare seededAnalysis))
   \<and> find (\<lambda>v. key v = ''BASE_URL'') (envVars seededAnalysis) = Some (envVar ''BASE_URL'' [])
   \<and> envVar ''BASE_URL'' ''https://openrouter.ai/api/v1''
       \<in> set (envVars (mergeOnMount codeUnitCompare seededAnalysis))
   \<and> length (envVars (mergeOnMount codeUnitCompare seededAnalysis)) = 9"
proof -
  have h1: "\<not> falsy (val (envVar ''OPENROUTER_API_KEY'' ''x''))"
    by code_simp
  have h2: "envVar ''OPENROUTER_API_KEY'' ''x'' \<in> set (envVars seededAnalysis)"
    by code_simp
  have h3: "STANDARD_LLM_VARS ! 5 \<in> set STANDARD_LLM_VARS"
    by code_simp
  have h4: "key (STANDARD_LLM_VARS ! 5) = ''HOST''"
    by code_simp
  have h5: "''HOST'' \<notin> set (map key (envVars seededAnalysis))"
    by code_simp
  have h6: "STANDARD_LLM_VARS ! 3 \<in> set STANDARD_LLM_VARS"
    by code_simp
  have h7: "find (\<lambda>v. key v = key (STANDARD_LLM_VARS ! 3)) (envVars seededAnalysis)
              = Some (envVar ''BASE_URL'' [])"
    by code_simp
  have h8: "key (STANDARD_LLM_VARS ! 3) = ''BASE_URL''"
    by code_simp
  have v1: "(if falsy (val (envVar ''BASE_URL'' [])) \<and> \<not> falsy (val (STANDARD_LLM_VARS ! 3))
             then (envVar ''BASE_URL'' [])\<lparr>val := val (STANDARD_LLM_VARS ! 3)\<rparr>
             else envVar ''BASE_URL'' [])
            = envVar ''BASE_URL'' ''https://openrouter.ai/api/v1''"
    by code_simp
  have v2: "length (envVars seededAnalysis)
         + length (filter (\<lambda>s. key s \<notin> set (map key (envVars seededAnalysis))) STANDARD_LLM_VARS)
       = 9"
    by code_simp
  from mandatory_variables_merged [where localeCompare = codeUnitCompare and prev = seededAnalysis]
  have P: "\<forall>e\<in>set (envVars seededAnalysis).
         \<not> falsy (val e) \<longrightarrow> e \<in> set (envVars (mergeOnMount codeUnitCompare seededAnalysis))"
    and A: "\<forall>s\<in>set STANDARD_LLM_VARS.
         key s \<notin> set (map key (envVars seededAnalysis)) \<longrightarrow>
         s \<in> set (envVars (mergeOnMount codeUnitCompare seededAnalysis))"
    and B: "\<forall>s\<in>set STANDARD_LLM_VARS. \<forall>e.
         find (\<lambda>v. key v = key s) (envVars seededAnalysis) = Some e \<longrightarrow>
         (if falsy (val e) \<and> \<not> falsy (val s) then e\<lparr>val := val s\<rparr> else e)
           \<in> set (envVars (mergeOnMount codeUnitCompare seededAnalysis))"
    and L: "length (envVars (mergeOnMount codeUnitCompare seededAnalysis))
       = length (envVars seededAnalysis)
         + length (filter (\<lambda>s. key s \<notin> set (map key (envVars seededAnalysis))) STANDARD_LLM_VARS)"
    by blast+
  have c1: "envVar ''OPENROUTER_API_KEY'' ''x''
       \<in> set (envVars (mergeOnMount codeUnitCompare seededAnalysis))"
    using P h1 h2 by blast
  have c2: "STANDARD_LLM_VARS ! 5 \<in> set (envVars (mergeOnMount codeUnitCompare seededAnalysis))"
    using A h3 h4 h5 by simp
  have c3: "envVar ''BASE_URL'' ''https://openrouter.ai/api/v1''
       \<in> set (envVars (mergeOnMount codeUnitCompare seededAnalysis))"
  proof -
    from B h6 have "\<forall>e. find (\<lambda>v. key v = key (STANDARD_LLM_VARS ! 3)) (envVars seededAnalysis)
                     = Some e \<longrightarrow>
         (if falsy (val e) \<and> \<not> falsy (val (STANDARD_LLM_VARS ! 3))
          then e\<lparr>val := val (STANDARD_LLM_VARS ! 3)\<rparr> else e)
           \<in> set (envVars (mergeOnMount codeUnitCompare seededAnalysis))"
      by (rule bspec)
    with h7 have "(if falsy (val (envVar ''BASE_URL'' [])) \<and> \<not> falsy (val (STANDARD_LLM_VARS ! 3))
             then (envVar ''BASE_URL'' [])\<lparr>val := val (STANDARD_LLM_VARS ! 3)\<rparr>
             else envVar ''BASE_URL'' [])
           \<in> set (envVars (mergeOnMount codeUnitCompare seededAnalysis))"
      by blast
    then show ?thesis
      unfolding v1 .
  qed
  show ?thesis
    using h1 h2 h3 h4 h5 h7 h8 c1 c2 c3 L v2 by simp
qed

text \<open>
  \<^bold>\<open>C8\<close>. After the merge the list is ordered: first the variables whose key is in the
  priority list \<open>HOST, PORT, LLM_PROVIDER, OPENROUTER_API_KEY, GOOGLE_API_KEY, BASE_URL,
  MODEL_NAME\<close>, in the order of that list, then all the others, sorted by key with
  \<open>localeCompare\<close>. The hypothesis is that \<open>localeCompare\<close> is a consistent comparison.
\<close>

theorem merged_order:
  assumes "consistent localeCompare"
    and "ys = envVars (mergeOnMount localeCompare prev)"
  shows "ys = filter inPriority ys @ filter (\<lambda>v. \<not> inPriority v) ys
       \<and> sorted (map (\<lambda>v. indexOf priority (key v)) (filter inPriority ys))
       \<and> sorted_wrt (\<lambda>a b. localeCompare (key a) (key b) \<le> 0) (filter (\<lambda>v. \<not> inPriority v) ys)"
proof -
  let ?R = "\<lambda>a b. compareEnv localeCompare a b \<le> 0"
  have ys: "ys = sortBy (compareEnv localeCompare) (mergedVars (envVars prev))"
    using assms(2) by (simp add: envVars_mergeOnMount)
  have s: "sorted_wrt ?R ys"
    unfolding ys
    using compareEnv_total [OF assms(1)] compareEnv_trans [OF assms(1)]
    by (rule sorted_sortBy)
  have A: "ys = filter inPriority ys @ filter (\<lambda>v. \<not> inPriority v) ys"
    using s by (rule sorted_partition) (simp add: compareEnv_cases)
  have "sorted_wrt ?R (filter inPriority ys)"
    using s by (rule sorted_wrt_filter)
  then have "sorted_wrt (\<lambda>a b. indexOf priority (key a) \<le> indexOf priority (key b))
               (filter inPriority ys)"
    by (rule sorted_wrt_mono_rel [rotated]) (simp add: compareEnv_cases)
  then have B: "sorted (map (\<lambda>v. indexOf priority (key v)) (filter inPriority ys))"
    by (simp add: sorted_map)
  have "sorted_wrt ?R (filter (\<lambda>v. \<not> inPriority v) ys)"
    using s by (rule sorted_wrt_filter)
  then have C: "sorted_wrt (\<lambda>a b. localeCompare (key a) (key b) \<le> 0)
                  (filter (\<lambda>v. \<not> inPriority v) ys)"
    by (rule sorted_wrt_mono_rel [rotated]) (simp add: compareEnv_cases)
  show ?thesis using A B C by blast
qed

theorem merged_order_witness:
  "consistent codeUnitCompare
   \<and> map key (envVars (mergeOnMount codeUnitCompare seededAnalysis))
       = [''HOST'', ''PORT'', ''LLM_PROVIDER'', ''OPENROUTER_API_KEY'', ''GOOGLE_API_KEY'',
          ''BASE_URL'', ''MODEL_NAME'', ''APP_NAME'', ''ZED'']
   \<and> map key (filter inPriority (envVars (mergeOnMount codeUnitCompare seededAnalysis)))
       = [''HOST'', ''PORT'', ''LLM_PROVIDER'', ''OPENROUTER_API_KEY'', ''GOOGLE_API_KEY'',
          ''BASE_URL'', ''MODEL_NAME'']
   \<and> sorted (map (\<lambda>v. indexOf priority (key v))
               (filter inPriority (envVars (mergeOnMount codeUnitCompare seededAnalysis))))
   \<and> sorted_wrt (\<lambda>a b. codeUnitCompare (key a) (key b) \<le> 0)
        (filter (\<lambda>v. \<not> inPriority v) (envVars (mergeOnMount codeUnitCompare seededAnalysis)))"
proof -
  have v1: "map key (envVars (mergeOnMount codeUnitCompare seededAnalysis))
       = [''HOST'', ''PORT'', ''LLM_PROVIDER'', ''OPENROUTER_API_KEY'', ''GOOGLE_API_KEY'',
          ''BASE_URL'', ''MODEL_NAME'', ''APP_NAME'', ''ZED'']"
    by code_simp
  have v2: "map key (filter inPriority (envVars (mergeOnMount codeUnitCompare seededAnalysis)))
       = [''HOST'', ''PORT'', ''LLM_PROVIDER'', ''OPENROUTER_API_KEY'', ''GOOGLE_API_KEY'',
          ''BASE_URL'', ''MODEL_NAME'']"
    by code_simp
  show ?thesis
    using merged_order [OF consistent_codeUnitCompare refl, of seededAnalysis] v1 v2
      consistent_codeUnitCompare
    by simp
qed


end
